theory Spec2Isabelle
  imports Complex_Main "HOL-Library.AList" "HOL-Library.Sublist"
begin

section \<open>Data model of id3.py\<close>

text \<open>
  Python values that can stand at a leaf of the tree: \<open>PyNone\<close> is Python's \<open>None\<close>,
  \<open>PyVal x\<close> any other output value. The source returns \<open>None\<close> for "no exemplars"
  (line 156) and for "no matching value" (line 123); an exemplar's output is an arbitrary
  Python object and may itself be \<open>None\<close>, so both live in the same type.
\<close>

datatype 'o pyval = PyNone | PyVal 'o

text \<open>The exceptions the modelled code can raise.\<close>

datatype error = KeyError | TypeError

text \<open>
  A Python \<open>dict\<close> keeps insertion order, so it is an association list whose keys are
  distinct. \<open>d[k]\<close> is \<open>getitem\<close>, \<open>d.pop(k)\<close> is \<open>pop\<close>, \<open>d[k] = v\<close> is \<open>setitem\<close>
  (an existing key keeps its position, a new key goes to the end), \<open>d0 != d1\<close> is the
  negation of \<open>dict_eq\<close> (same length, and every item of the first is found in the second).
\<close>

type_synonym ('k, 'v) dict = "('k \<times> 'v) list"

definition keys :: "('k, 'v) dict \<Rightarrow> 'k list" where
  "keys d = map fst d"

definition getitem :: "('k, 'v) dict \<Rightarrow> 'k \<Rightarrow> error + 'v" where
  "getitem d k = (case map_of d k of None \<Rightarrow> Inl KeyError | Some v \<Rightarrow> Inr v)"

definition pop :: "'k \<Rightarrow> ('k, 'v) dict \<Rightarrow> error + ('v \<times> ('k, 'v) dict)" where
  "pop k d = (case map_of d k of None \<Rightarrow> Inl KeyError | Some v \<Rightarrow> Inr (v, AList.delete k d))"

definition setitem :: "'k \<Rightarrow> 'v \<Rightarrow> ('k, 'v) dict \<Rightarrow> ('k, 'v) dict" where
  "setitem k v d = AList.update k v d"

definition dict_eq :: "('k, 'v) dict \<Rightarrow> ('k, 'v) dict \<Rightarrow> bool" where
  "dict_eq d0 d1 \<longleftrightarrow> length d0 = length d1 \<and> list_all (\<lambda>(k, v). map_of d1 k = Some v) d0"

type_synonym ('k, 'v, 'o) exemplar = "('k, 'v) dict \<times> 'o pyval"

text \<open>
  A position of the tree is an \<open>ID3DecisionTreeNode\<close> (lines 107-123) or any other Python
  value, which ends the traversal: a \<open>Leaf\<close>.
\<close>

datatype ('k, 'v, 'o) node =
    Leaf "'o pyval"
  | ID3DecisionTreeNode 'k "('v \<times> ('k, 'v, 'o) node) list"

datatype ('k, 'v, 'o) tree = ID3DecisionTree (root_node: "('k, 'v, 'o) node")

section \<open>Queries on the tree\<close>

text \<open>\<open>ID3DecisionTreeNode.get_subnode_for_input\<close> (lines 120-123), on the node's pairs.\<close>

fun get_subnode_for_input :: "('v \<times> ('k, 'v, 'o) node) list \<Rightarrow> 'v \<Rightarrow> ('k, 'v, 'o) node" where
  "get_subnode_for_input [] input = Leaf PyNone"
| "get_subnode_for_input ((value, subnode) # rest) input =
     (if input = value then subnode else get_subnode_for_input rest input)"

text \<open>Nesting depth of a tree position; a leaf has depth 0.\<close>

fun depth :: "('k, 'v, 'o) node \<Rightarrow> nat" where
  "depth (Leaf x) = 0"
| "depth (ID3DecisionTreeNode a pairs) = Suc (foldr max (map (\<lambda>(v, sub). depth sub) pairs) 0)"

lemma foldr_max_mem: "(x::nat) \<in> set xs \<Longrightarrow> x \<le> foldr max xs 0"
  by (induction xs) auto

lemma foldr_max_bound: "(\<And>x. x \<in> set xs \<Longrightarrow> x \<le> (b::nat)) \<Longrightarrow> foldr max xs 0 \<le> b"
  by (induction xs) auto

lemma depth_get_subnode:
  "depth (get_subnode_for_input pairs v) \<le> foldr max (map (\<lambda>(v, sub). depth sub) pairs) 0"
  by (induction pairs) (auto simp: max.coboundedI2)

text \<open>
  \<open>ID3DecisionTree.__call__\<close> (lines 45-54): the \<open>while\<close> loop follows the subnode chosen
  by \<open>inputs[node.name]\<close> until the current position is no node. A missing key raises.
\<close>

function traverse :: "('k, 'v, 'o) node \<Rightarrow> ('k, 'v) dict \<Rightarrow> error + 'o pyval" where
  "traverse (Leaf x) inputs = Inr x"
| "traverse (ID3DecisionTreeNode a pairs) inputs =
     (case getitem inputs a of
        Inl e \<Rightarrow> Inl e
      | Inr v \<Rightarrow> traverse (get_subnode_for_input pairs v) inputs)"
  by pat_completeness auto
termination
proof (relation "measure (\<lambda>(t, inputs). depth t)")
  show "wf (measure (\<lambda>(t, inputs). depth t))" by simp
next
  fix a :: 'k and pairs :: "('v \<times> ('k, 'v, 'o) node) list" and inputs :: "('k, 'v) dict" and v
  have "depth (get_subnode_for_input pairs v) \<le> foldr max (map (\<lambda>(v, sub). depth sub) pairs) 0"
    by (rule depth_get_subnode)
  then show "((get_subnode_for_input pairs v, inputs), ID3DecisionTreeNode a pairs, inputs)
        \<in> measure (\<lambda>(t, inputs). depth t)"
    by simp
qed

definition call :: "('k, 'v, 'o) tree \<Rightarrow> ('k, 'v) dict \<Rightarrow> error + 'o pyval" where
  "call t inputs = traverse (root_node t) inputs"

text \<open>
  \<open>ID3DecisionTree.validate\<close> (lines 94-105): replay the exemplars in order, \<open>False\<close> at
  the first disagreement; an exception of the call propagates.
\<close>

fun validate :: "('k, 'v, 'o) tree \<Rightarrow> ('k, 'v, 'o) exemplar list \<Rightarrow> error + bool" where
  "validate t [] = Inr True"
| "validate t ((inputs, output) # rest) =
     (case call t inputs of
        Inl e \<Rightarrow> Inl e
      | Inr r \<Rightarrow> if r \<noteq> output then Inr False else validate t rest)"

text \<open>
  The attribute names of the nodes that the loop of \<open>__call__\<close> visits, in order: the
  values that \<open>node.name\<close> takes on line 53.
\<close>

function visited :: "('k, 'v, 'o) node \<Rightarrow> ('k, 'v) dict \<Rightarrow> 'k list" where
  "visited (Leaf x) inputs = []"
| "visited (ID3DecisionTreeNode a pairs) inputs =
     a # (case getitem inputs a of
            Inl e \<Rightarrow> []
          | Inr v \<Rightarrow> visited (get_subnode_for_input pairs v) inputs)"
  by pat_completeness auto
termination
proof (relation "measure (\<lambda>(t, inputs). depth t)")
  show "wf (measure (\<lambda>(t, inputs). depth t))" by simp
next
  fix a :: 'k and pairs :: "('v \<times> ('k, 'v, 'o) node) list" and inputs :: "('k, 'v) dict" and v
  have "depth (get_subnode_for_input pairs v) \<le> foldr max (map (\<lambda>(v, sub). depth sub) pairs) 0"
    by (rule depth_get_subnode)
  then show "((get_subnode_for_input pairs v, inputs), ID3DecisionTreeNode a pairs, inputs)
        \<in> measure (\<lambda>(t, inputs). depth t)"
    by simp
qed

text \<open>
  \<open>get_inputs\<close> (lines 83-90), called on a node with the name \<open>a\<close> and the pairs
  \<open>pairs\<close>. The loop carries the dict \<open>input\<close>, which line 85 updates in place, and the
  list \<open>inputs\<close>, which every recursive call shares and appends to; a recursive call
  gets a copy of \<open>input\<close>, so its updates are not seen by the caller.
\<close>

fun get_inputs ::
  "'k \<Rightarrow> ('v \<times> ('k, 'v, 'o) node) list \<Rightarrow> 'o pyval \<Rightarrow> ('k, 'v) dict \<Rightarrow> ('k, 'v) dict list
    \<Rightarrow> ('k, 'v) dict list" where
  "get_inputs a pairs output input inputs =
     snd (fold (\<lambda>(value, subnode) (input, inputs).
                  let input = setitem a value input
                  in case subnode of
                       ID3DecisionTreeNode b subpairs \<Rightarrow>
                         (input, get_inputs b subpairs output input inputs)
                     | Leaf x \<Rightarrow>
                         if x = output then (input, inputs @ [input]) else (input, inputs))
               pairs (input, inputs))"

text \<open>\<open>ID3DecisionTree.get_inputs_for_output\<close> (lines 79-92).\<close>

definition get_inputs_for_output :: "('k, 'v, 'o) tree \<Rightarrow> 'o pyval \<Rightarrow> ('k, 'v) dict list" where
  "get_inputs_for_output t output =
     (case root_node t of
        Leaf x \<Rightarrow> []
      | ID3DecisionTreeNode a pairs \<Rightarrow> get_inputs a pairs output [] [])"

section \<open>Building the tree\<close>

text \<open>
  Python iterates a \<open>set\<close> in an order the language does not fix. The model takes the
  order as a parameter: a function from the list of the elements put into the set to the
  list of the elements as iterated. \<open>set_order\<close> says what every such order satisfies:
  each element once, and no other element.
\<close>

definition set_order :: "('a list \<Rightarrow> 'a list) \<Rightarrow> bool" where
  "set_order iter \<longleftrightarrow> (\<forall>xs. distinct (iter xs) \<and> set (iter xs) = set xs)"

text \<open>The first exception of a sequence of results, or all the values.\<close>

fun collect :: "(error + 'a) list \<Rightarrow> error + 'a list" where
  "collect [] = Inr []"
| "collect (r # rs) =
     (case r of
        Inl e \<Rightarrow> Inl e
      | Inr x \<Rightarrow> (case collect rs of Inl e \<Rightarrow> Inl e | Inr xs \<Rightarrow> Inr (x # xs)))"

text \<open>Lines 160-167: the two nested loops leave \<open>inputs_all_same\<close> true iff no pair differs.\<close>

definition inputs_all_same :: "('k, 'v, 'o) exemplar list \<Rightarrow> bool" where
  "inputs_all_same exemplars =
     list_all (\<lambda>(inputs0, _). list_all (\<lambda>(inputs1, _). dict_eq inputs0 inputs1) exemplars) exemplars"

text \<open>
  Lines 171-179: the most common output, the first one of the iteration whose count
  exceeds every count before it.
\<close>

definition most_common_step ::
  "'o pyval list \<Rightarrow> 'o pyval \<Rightarrow> 'o pyval \<times> nat \<Rightarrow> 'o pyval \<times> nat" where
  "most_common_step outputs output best =
     (let count = count_list outputs output
      in if count > snd best then (output, count) else best)"

definition most_common_output :: "('o pyval list \<Rightarrow> 'o pyval list) \<Rightarrow> 'o pyval list \<Rightarrow> 'o pyval" where
  "most_common_output iter_o outputs =
     fst (fold (most_common_step outputs) (iter_o outputs) (PyNone, 0))"

text \<open>
  Line 185: the values of the attribute over the exemplars, in the set's iteration order;
  \<open>inputs[attr]\<close> raises for an exemplar without the attribute.
\<close>

definition attr_values_of ::
  "('v list \<Rightarrow> 'v list) \<Rightarrow> 'k \<Rightarrow> ('k, 'v, 'o) exemplar list \<Rightarrow> error + 'v list" where
  "attr_values_of iter_v attr exemplars =
     (case collect (map (\<lambda>(inputs, _). getitem inputs attr) exemplars) of
        Inl e \<Rightarrow> Inl e
      | Inr vs \<Rightarrow> Inr (iter_v vs))"

text \<open>
  Lines 191-196. \<open>partitions\<close> is a dict from attribute value to a list of exemplars, its
  keys in insertion order. \<open>append_to\<close> is \<open>partitions[attr_value].append(x)\<close>.
\<close>

type_synonym ('k, 'v, 'o) partitions = "('v \<times> ('k, 'v, 'o) exemplar list) list"

fun append_to ::
  "'v \<Rightarrow> ('k, 'v, 'o) exemplar \<Rightarrow> ('k, 'v, 'o) partitions \<Rightarrow> error + ('k, 'v, 'o) partitions" where
  "append_to attr_value x [] = Inl KeyError"
| "append_to attr_value x ((w, xs) # rest) =
     (if w = attr_value then Inr ((w, xs @ [x]) # rest)
      else (case append_to attr_value x rest of
              Inl e \<Rightarrow> Inl e
            | Inr rest' \<Rightarrow> Inr ((w, xs) # rest')))"

fun partition_exemplars ::
  "'k \<Rightarrow> ('k, 'v, 'o) exemplar list \<Rightarrow> ('k, 'v, 'o) partitions \<Rightarrow> error + ('k, 'v, 'o) partitions" where
  "partition_exemplars attr [] partitions = Inr partitions"
| "partition_exemplars attr ((inputs, output) # rest) partitions =
     (case pop attr inputs of
        Inl e \<Rightarrow> Inl e
      | Inr (attr_value, inputs') \<Rightarrow>
          (case append_to attr_value (inputs', output) partitions of
             Inl e \<Rightarrow> Inl e
           | Inr partitions' \<Rightarrow> partition_exemplars attr rest partitions'))"

definition make_partitions ::
  "('v list \<Rightarrow> 'v list) \<Rightarrow> 'k \<Rightarrow> ('k, 'v, 'o) exemplar list \<Rightarrow> error + ('k, 'v, 'o) partitions" where
  "make_partitions iter_v attr exemplars =
     (case attr_values_of iter_v attr exemplars of
        Inl e \<Rightarrow> Inl e
      | Inr attr_values \<Rightarrow>
          partition_exemplars attr exemplars (map (\<lambda>attr_value. (attr_value, [])) attr_values))"

text \<open>
  Python's floats. The score \<open>attr_entropy\<close> is a float, and every operation of line 204
  rounds its result, so none of them is taken to be the exact operation on numbers. A
  value of the type \<open>'f\<close> is the number that a float denotes, and the order of \<open>'f\<close> is
  the comparison of line 207 (no NaN arises: the argument of \<open>log2\<close> is the quotient of two
  positive ints). The operations themselves are the fields of a record that the functions
  below take as their first argument \<open>fl\<close>:
  \<^item> \<open>fl_zero\<close>, the number of \<open>attr_entropy = 0\<close> on line 199;
  \<^item> \<open>fl_div\<close>, the quotient of two ints \<open>output_count/len(outputs)\<close>;
  \<^item> \<open>fl_log2\<close>, \<open>math.log2\<close>;
  \<^item> \<open>fl_mul\<close>, the product of an int and a float \<open>output_count*log2(...)\<close>;
  \<^item> \<open>fl_sub\<close>, the subtraction of \<open>attr_entropy -= ...\<close>.
\<close>

record 'f float_ops =
  fl_zero :: 'f
  fl_div :: "nat \<Rightarrow> nat \<Rightarrow> 'f"
  fl_log2 :: "'f \<Rightarrow> 'f"
  fl_mul :: "nat \<Rightarrow> 'f \<Rightarrow> 'f"
  fl_sub :: "'f \<Rightarrow> 'f \<Rightarrow> 'f"

text \<open>
  Lines 198-204. \<open>entropy_term\<close> is the amount
  \<open>output_count*log2(output_count/len(outputs))\<close> that line 204 subtracts, \<open>group_entropy\<close>
  the loop of lines 202-204 over the set of the outputs of one partition, and
  \<open>attr_entropy_of\<close> the loop of lines 200-204 over the partitions; both loops subtract
  from the running \<open>attr_entropy\<close> in the order of iteration.
\<close>

definition entropy_term :: "'f float_ops \<Rightarrow> 'o pyval list \<Rightarrow> 'o pyval \<Rightarrow> 'f" where
  "entropy_term fl outputs output =
     (let output_count = count_list outputs output
      in fl_mul fl output_count (fl_log2 fl (fl_div fl output_count (length outputs))))"

definition group_entropy ::
  "'f float_ops \<Rightarrow> ('o pyval list \<Rightarrow> 'o pyval list) \<Rightarrow> 'o pyval list \<Rightarrow> 'f \<Rightarrow> 'f" where
  "group_entropy fl iter_o outputs attr_entropy =
     fold (\<lambda>output attr_entropy. fl_sub fl attr_entropy (entropy_term fl outputs output))
          (iter_o outputs) attr_entropy"

definition attr_entropy_of ::
  "'f float_ops \<Rightarrow> ('o pyval list \<Rightarrow> 'o pyval list) \<Rightarrow> ('k, 'v, 'o) partitions \<Rightarrow> 'f" where
  "attr_entropy_of fl iter_o partitions =
     fold (\<lambda>(attr_value, partition) attr_entropy.
             group_entropy fl iter_o (map snd partition) attr_entropy)
          partitions (fl_zero fl)"

text \<open>
  The entropy score that the loop of lines 183-212 computes for an attribute, when the
  partitioning of lines 185-196 raises nothing.
\<close>

definition attr_score ::
  "'f float_ops \<Rightarrow> ('v list \<Rightarrow> 'v list) \<Rightarrow> ('o pyval list \<Rightarrow> 'o pyval list)
    \<Rightarrow> ('k, 'v, 'o) exemplar list \<Rightarrow> 'k \<Rightarrow> 'f option" where
  "attr_score fl iter_v iter_o exemplars attr =
     (case make_partitions iter_v attr exemplars of
        Inl e \<Rightarrow> None
      | Inr partitions \<Rightarrow> Some (attr_entropy_of fl iter_o partitions))"

text \<open>
  Lines 182-212. \<open>best_attr\<close> is \<open>None\<close> or the dict with the entries \<open>attr\<close>, \<open>entropy\<close> and
  \<open>partitions\<close>, here a triple. \<open>consider_attr\<close> is one round of the loop over the keys
  of the first exemplar, \<open>find_best_attr\<close> the loop. The comparison of line 207 is
  between the two floats as they were computed.
\<close>

type_synonym ('k, 'v, 'o, 'f) best_attr = "'k \<times> 'f \<times> ('k, 'v, 'o) partitions"

definition consider_attr ::
  "'f::linorder float_ops \<Rightarrow> ('v list \<Rightarrow> 'v list) \<Rightarrow> ('o pyval list \<Rightarrow> 'o pyval list)
    \<Rightarrow> ('k, 'v, 'o) exemplar list \<Rightarrow> 'k
    \<Rightarrow> ('k, 'v, 'o, 'f) best_attr option \<Rightarrow> error + ('k, 'v, 'o, 'f) best_attr option" where
  "consider_attr fl iter_v iter_o exemplars attr best_attr =
     (case make_partitions iter_v attr exemplars of
        Inl e \<Rightarrow> Inl e
      | Inr partitions \<Rightarrow>
          (let attr_entropy = attr_entropy_of fl iter_o partitions
           in case best_attr of
                None \<Rightarrow> Inr (Some (attr, attr_entropy, partitions))
              | Some (best, best_entropy, best_partitions) \<Rightarrow>
                  if attr_entropy < best_entropy
                  then Inr (Some (attr, attr_entropy, partitions))
                  else Inr best_attr))"

fun find_best_attr ::
  "'f::linorder float_ops \<Rightarrow> ('v list \<Rightarrow> 'v list) \<Rightarrow> ('o pyval list \<Rightarrow> 'o pyval list)
    \<Rightarrow> ('k, 'v, 'o) exemplar list \<Rightarrow> 'k list
    \<Rightarrow> ('k, 'v, 'o, 'f) best_attr option \<Rightarrow> error + ('k, 'v, 'o, 'f) best_attr option" where
  "find_best_attr fl iter_v iter_o exemplars [] best_attr = Inr best_attr"
| "find_best_attr fl iter_v iter_o exemplars (attr # attrs) best_attr =
     (case consider_attr fl iter_v iter_o exemplars attr best_attr of
        Inl e \<Rightarrow> Inl e
      | Inr best_attr' \<Rightarrow> find_best_attr fl iter_v iter_o exemplars attrs best_attr')"

text \<open>
  Termination of the recursion. Every exemplar of a partition comes from an exemplar of
  the call (\<open>derived\<close>) with the attribute popped, so the largest number of attributes of
  an exemplar (\<open>arity\<close>) goes down.
\<close>

definition derived :: "'k \<Rightarrow> ('k, 'v, 'o) exemplar list \<Rightarrow> ('k, 'v, 'o) exemplar \<Rightarrow> bool" where
  "derived attr exemplars x \<longleftrightarrow>
     (\<exists>inputs. (inputs, snd x) \<in> set exemplars \<and> map_of inputs attr \<noteq> None
               \<and> fst x = AList.delete attr inputs)"

lemma append_to_preserves:
  "append_to v x ps = Inr ps' \<Longrightarrow> P x \<Longrightarrow> \<forall>(w, q) \<in> set ps. \<forall>y \<in> set q. P y
    \<Longrightarrow> \<forall>(w, q) \<in> set ps'. \<forall>y \<in> set q. P y"
proof (induction ps arbitrary: ps')
  case Nil
  then show ?case by simp
next
  case (Cons p ps)
  obtain w xs where p: "p = (w, xs)" by (cases p)
  show ?case
  proof (cases "w = v")
    case True
    with Cons.prems show ?thesis by (fastforce simp: p)
  next
    case False
    with Cons.prems obtain rest' where r: "append_to v x ps = Inr rest'" and ps': "ps' = (w, xs) # rest'"
      by (auto simp: p split: sum.splits)
    from Cons.prems have "\<forall>(w, q) \<in> set ps. \<forall>y \<in> set q. P y" by simp
    from Cons.IH [OF r Cons.prems(2) this] Cons.prems(3) show ?thesis by (auto simp: ps' p)
  qed
qed

lemma partition_exemplars_derived:
  "partition_exemplars attr ex ps = Inr ps' \<Longrightarrow> set ex \<subseteq> set exemplars
    \<Longrightarrow> \<forall>(w, q) \<in> set ps. \<forall>y \<in> set q. derived attr exemplars y
    \<Longrightarrow> \<forall>(w, q) \<in> set ps'. \<forall>y \<in> set q. derived attr exemplars y"
proof (induction ex arbitrary: ps)
  case Nil
  then show ?case by simp
next
  case (Cons e ex)
  obtain inputs outp where e: "e = (inputs, outp)" by (cases e)
  from Cons.prems(1) obtain v inputs' ps1 where
    pop: "pop attr inputs = Inr (v, inputs')" and
    app: "append_to v (inputs', outp) ps = Inr ps1" and
    rest: "partition_exemplars attr ex ps1 = Inr ps'"
    by (auto simp: e split: sum.splits prod.splits)
  from pop have "map_of inputs attr \<noteq> None" "inputs' = AList.delete attr inputs"
    by (auto simp: pop_def split: option.splits)
  with Cons.prems(2) have d: "derived attr exemplars (inputs', outp)"
    by (auto simp: derived_def e)
  have "\<forall>(w, q) \<in> set ps1. \<forall>y \<in> set q. derived attr exemplars y"
    by (rule append_to_preserves [OF app d Cons.prems(3)])
  moreover from Cons.prems(2) have "set ex \<subseteq> set exemplars" by simp
  ultimately show ?case using Cons.IH [OF rest] by blast
qed

lemma make_partitions_derived:
  assumes "make_partitions iter_v attr exemplars = Inr ps" and "(w, q) \<in> set ps" and "y \<in> set q"
  shows "derived attr exemplars y"
proof -
  from assms(1) obtain vs where
    p: "partition_exemplars attr exemplars (map (\<lambda>attr_value. (attr_value, [])) vs) = Inr ps"
    by (auto simp: make_partitions_def split: sum.splits)
  have "\<forall>(w, q) \<in> set ps. \<forall>y \<in> set q. derived attr exemplars y"
    by (rule partition_exemplars_derived [OF p]) auto
  with assms(2,3) show ?thesis by blast
qed

lemma consider_attr_cases:
  assumes "consider_attr fl iter_v iter_o exemplars attr best = Inr (Some (a, e, ps))"
  shows "best = Some (a, e, ps) \<or> (a = attr \<and> make_partitions iter_v attr exemplars = Inr ps \<and> e = attr_entropy_of fl iter_o ps)"
  using assms by (auto simp: consider_attr_def Let_def split: sum.splits option.splits if_splits)

lemma find_best_attr_origin:
  "find_best_attr fl iter_v iter_o exemplars attrs best = Inr (Some (a, e, ps))
    \<Longrightarrow> best = Some (a, e, ps)
        \<or> (a \<in> set attrs \<and> make_partitions iter_v a exemplars = Inr ps \<and> e = attr_entropy_of fl iter_o ps)"
proof (induction attrs arbitrary: best)
  case Nil
  then show ?case by simp
next
  case (Cons attr attrs)
  from Cons.prems obtain b1 where
    c: "consider_attr fl iter_v iter_o exemplars attr best = Inr b1" and
    f: "find_best_attr fl iter_v iter_o exemplars attrs b1 = Inr (Some (a, e, ps))"
    by (auto split: sum.splits)
  from Cons.IH [OF f] show ?case
  proof
    assume "b1 = Some (a, e, ps)"
    with c consider_attr_cases [of fl iter_v iter_o exemplars attr best a e ps] show ?thesis by auto
  next
    assume "a \<in> set attrs \<and> make_partitions iter_v a exemplars = Inr ps \<and> e = attr_entropy_of fl iter_o ps"
    then show ?thesis by simp
  qed
qed

definition arity :: "('k, 'v, 'o) exemplar list \<Rightarrow> nat" where
  "arity exemplars = foldr max (map (\<lambda>(inputs, _). length inputs) exemplars) 0"

lemma length_delete_less: "map_of d k \<noteq> None \<Longrightarrow> length (AList.delete k d) < length d"
proof -
  assume "map_of d k \<noteq> None"
  then obtain v where "(k, v) \<in> set d" by (auto dest: map_of_SomeD)
  then show ?thesis unfolding AList.delete_eq by (rule length_filter_less) simp
qed

lemma arity_partition:
  assumes "make_partitions iter_v attr exemplars = Inr ps" and "(w, q) \<in> set ps"
    and "exemplars \<noteq> []" and "attr \<in> set (keys (fst (hd exemplars)))"
  shows "arity q < arity exemplars"
proof -
  from assms(3) obtain i0 o0 rest where ex: "exemplars = (i0, o0) # rest"
    by (cases exemplars) auto
  with assms(4) have "length i0 > 0" by (auto simp: keys_def)
  moreover have "length i0 \<le> arity exemplars" by (simp add: arity_def ex)
  ultimately have pos: "0 < arity exemplars" by (rule less_le_trans)
  have "\<And>n. n \<in> set (map (\<lambda>(inputs, _). length inputs) q) \<Longrightarrow> Suc n \<le> arity exemplars"
  proof -
    fix n assume "n \<in> set (map (\<lambda>(inputs, _). length inputs) q)"
    then obtain y where y: "y \<in> set q" and n: "n = length (fst y)" by (auto)
    from make_partitions_derived [OF assms(1,2) y] obtain inputs where
      i: "(inputs, snd y) \<in> set exemplars" "map_of inputs attr \<noteq> None" "fst y = AList.delete attr inputs"
      by (auto simp: derived_def)
    from i(2,3) have "n < length inputs" by (simp add: n length_delete_less)
    moreover from i(1) have "length inputs \<le> arity exemplars"
      unfolding arity_def by (intro foldr_max_mem) force
    ultimately show "Suc n \<le> arity exemplars" by simp
  qed
  then have "arity q \<le> arity exemplars - 1"
    unfolding arity_def [of q] by (intro foldr_max_bound) fastforce
  with pos show ?thesis by simp
qed


text \<open>
  \<open>id3_helper\<close> (lines 152-221). Subscripting \<open>best_attr\<close> while it is still \<open>None\<close>
  (the first exemplar has no attribute) raises a \<open>TypeError\<close>; the loop of lines 216-219
  stops at the first recursive call that raises.
\<close>

function id3_helper ::
  "'f::linorder float_ops \<Rightarrow> ('v list \<Rightarrow> 'v list) \<Rightarrow> ('o pyval list \<Rightarrow> 'o pyval list)
    \<Rightarrow> ('k, 'v, 'o) exemplar list \<Rightarrow> error + ('k, 'v, 'o) node" where
  "id3_helper fl iter_v iter_o exemplars =
     (let output_set = set (map snd exemplars)
      in if card output_set = 0 then Inr (Leaf PyNone)
         else if card output_set = 1 then Inr (Leaf (snd (hd exemplars)))
         else if inputs_all_same exemplars
         then Inr (Leaf (most_common_output iter_o (map snd exemplars)))
         else (case find_best_attr fl iter_v iter_o exemplars (keys (fst (hd exemplars))) None of
                 Inl e \<Rightarrow> Inl e
               | Inr None \<Rightarrow> Inl TypeError
               | Inr (Some (attr, entropy, partitions)) \<Rightarrow>
                   (case collect
                           (map (\<lambda>(attr_value, partition).
                                   case id3_helper fl iter_v iter_o partition of
                                     Inl e \<Rightarrow> Inl e
                                   | Inr subnode \<Rightarrow> Inr (attr_value, subnode))
                                partitions) of
                      Inl e \<Rightarrow> Inl e
                    | Inr value_subnode_pairs \<Rightarrow>
                        Inr (ID3DecisionTreeNode attr value_subnode_pairs))))"
  by pat_completeness auto
termination
proof (relation "measure (\<lambda>(fl, iter_v, iter_o, exemplars). arity exemplars)")
  show "wf (measure (\<lambda>(fl, iter_v, iter_o, exemplars). arity exemplars))" by simp
next
  fix fl :: "'f::linorder float_ops"
    and iter_v :: "'v list \<Rightarrow> 'v list" and iter_o :: "'o pyval list \<Rightarrow> 'o pyval list"
    and exemplars :: "('k, 'v, 'o) exemplar list"
    and x b x2 xa y xb ya xc xd yb
  assume x: "x = set (map snd exemplars)" and nonempty: "card x \<noteq> 0"
    and best: "find_best_attr fl iter_v iter_o exemplars (keys (fst (hd exemplars))) None = Inr b"
    and b: "b = Some x2" "(xa, y) = x2" "(xb, ya) = y" and mem: "xc \<in> set ya" "(xd, yb) = xc"
  from b best have
    "find_best_attr fl iter_v iter_o exemplars (keys (fst (hd exemplars))) None = Inr (Some (xa, xb, ya))"
    by auto
  from find_best_attr_origin [OF this] have
    attr: "xa \<in> set (keys (fst (hd exemplars)))" and mk: "make_partitions iter_v xa exemplars = Inr ya"
    by auto
  from x nonempty have ne: "exemplars \<noteq> []" by auto
  from mem have "(xd, yb) \<in> set ya" by simp
  from arity_partition [OF mk this ne attr]
  show "((fl, iter_v, iter_o, yb), fl, iter_v, iter_o, exemplars)
          \<in> measure (\<lambda>(fl, iter_v, iter_o, exemplars). arity exemplars)"
    by simp
qed

declare id3_helper.simps [simp del]

text \<open>\<open>id3\<close> (line 223) wraps the root in an \<open>ID3DecisionTree\<close>.\<close>

definition id3 ::
  "'f::linorder float_ops \<Rightarrow> ('v list \<Rightarrow> 'v list) \<Rightarrow> ('o pyval list \<Rightarrow> 'o pyval list)
    \<Rightarrow> ('k, 'v, 'o) exemplar list \<Rightarrow> error + ('k, 'v, 'o) tree" where
  "id3 fl iter_v iter_o exemplars =
     (case id3_helper fl iter_v iter_o exemplars of
        Inl e \<Rightarrow> Inl e
      | Inr node \<Rightarrow> Inr (ID3DecisionTree node))"

text \<open>
  What the docstring of \<open>id3\<close> asks of the exemplars: each assignment is a dict (its keys
  are distinct), and all assignments have the same attribute names.
\<close>

definition dicts_wf :: "('k, 'v, 'o) exemplar list \<Rightarrow> bool" where
  "dicts_wf exemplars \<longleftrightarrow> (\<forall>x \<in> set exemplars. distinct (keys (fst x)))"

definition same_attribute_names :: "('k, 'v, 'o) exemplar list \<Rightarrow> bool" where
  "same_attribute_names exemplars \<longleftrightarrow>
     (\<forall>x \<in> set exemplars. \<forall>y \<in> set exemplars. set (keys (fst x)) = set (keys (fst y)))"

text \<open>
  No conflicting duplicates: two exemplars with equal assignments (Python's \<open>==\<close>) have
  the same output.
\<close>

definition consistent :: "('k, 'v, 'o) exemplar list \<Rightarrow> bool" where
  "consistent exemplars \<longleftrightarrow>
     (\<forall>x \<in> set exemplars. \<forall>y \<in> set exemplars. dict_eq (fst x) (fst y) \<longrightarrow> snd x = snd y)"

section \<open>The construction over a store\<close>

text \<open>
  The functions above take the exemplars as values. In Python a list and a dict are
  mutable objects and a variable holds a reference to one, so that \<open>inputs.pop(attr)\<close> on
  line 194 changes whatever object \<open>inputs\<close> refers to. This section has the construction
  once more, on a store: the store has the dict objects and the list objects, and the
  address of an object is its index. An exemplar is the tuple of the address of its
  assignment and its output (tuples, outputs, attribute names and attribute values are
  immutable values). A new object gets the next free address. The statements that only
  read the exemplars (lines 154-179, line 185 and lines 198-204) are those of the
  functions above, applied to what the store holds.
\<close>

record ('k, 'v, 'o) store =
  dict_objs :: "('k, 'v) dict list"
  list_objs :: "(nat \<times> 'o pyval) list list"

definition new_dict :: "('k, 'v) dict \<Rightarrow> ('k, 'v, 'o) store \<Rightarrow> nat \<times> ('k, 'v, 'o) store" where
  "new_dict d s = (length (dict_objs s), s\<lparr>dict_objs := dict_objs s @ [d]\<rparr>)"

definition new_list :: "('k, 'v, 'o) store \<Rightarrow> nat \<times> ('k, 'v, 'o) store" where
  "new_list s = (length (list_objs s), s\<lparr>list_objs := list_objs s @ [[]]\<rparr>)"

definition set_dict :: "nat \<Rightarrow> ('k, 'v) dict \<Rightarrow> ('k, 'v, 'o) store \<Rightarrow> ('k, 'v, 'o) store" where
  "set_dict a d s = s\<lparr>dict_objs := (dict_objs s)[a := d]\<rparr>"

definition list_append :: "nat \<Rightarrow> nat \<times> 'o pyval \<Rightarrow> ('k, 'v, 'o) store \<Rightarrow> ('k, 'v, 'o) store" where
  "list_append l x s = s\<lparr>list_objs := (list_objs s)[l := list_objs s ! l @ [x]]\<rparr>"

text \<open>The exemplars that a list object holds, each assignment read from the store.\<close>

definition exemplars_at :: "('k, 'v, 'o) store \<Rightarrow> nat \<Rightarrow> ('k, 'v, 'o) exemplar list" where
  "exemplars_at s ex = map (\<lambda>(inputs, output). (dict_objs s ! inputs, output)) (list_objs s ! ex)"

text \<open>
  Lines 190-191: \<open>partitions\<close> is a new dict from each attribute value to a new empty
  list; here the association list of the values and the addresses of the lists.
\<close>

fun new_partitions ::
  "'v list \<Rightarrow> ('k, 'v, 'o) store \<Rightarrow> ('v \<times> nat) list \<times> ('k, 'v, 'o) store" where
  "new_partitions [] s = ([], s)"
| "new_partitions (attr_value # rest) s =
     (let (l, s1) = new_list s;
          (partitions, s2) = new_partitions rest s1
      in ((attr_value, l) # partitions, s2))"

text \<open>
  Lines 192-195. \<open>inputs = dict(inputs)\<close> makes a new dict object with the entries of the
  exemplar's assignment, \<open>inputs.pop(attr)\<close> changes the object that \<open>inputs\<close> now refers to,
  and \<open>partitions[attr_value].append(...)\<close> changes the list object of the partition.
\<close>

fun partition_exemplars_h ::
  "'k \<Rightarrow> (nat \<times> 'o pyval) list \<Rightarrow> ('v \<times> nat) list \<Rightarrow> ('k, 'v, 'o) store
    \<Rightarrow> (error + unit) \<times> ('k, 'v, 'o) store" where
  "partition_exemplars_h attr [] partitions s = (Inr (), s)"
| "partition_exemplars_h attr ((inputs, output) # rest) partitions s =
     (let (inputs', s1) = new_dict (dict_objs s ! inputs) s
      in case pop attr (dict_objs s1 ! inputs') of
           Inl e \<Rightarrow> (Inl e, s1)
         | Inr (attr_value, d) \<Rightarrow>
             (let s2 = set_dict inputs' d s1
              in case map_of partitions attr_value of
                   None \<Rightarrow> (Inl KeyError, s2)
                 | Some l \<Rightarrow>
                     partition_exemplars_h attr rest partitions
                       (list_append l (inputs', output) s2)))"

text \<open>Lines 185-195 for the exemplars in the list object \<open>ex\<close>.\<close>

definition make_partitions_h ::
  "('v list \<Rightarrow> 'v list) \<Rightarrow> 'k \<Rightarrow> nat \<Rightarrow> ('k, 'v, 'o) store
    \<Rightarrow> (error + ('v \<times> nat) list) \<times> ('k, 'v, 'o) store" where
  "make_partitions_h iter_v attr ex s =
     (case attr_values_of iter_v attr (exemplars_at s ex) of
        Inl e \<Rightarrow> (Inl e, s)
      | Inr attr_values \<Rightarrow>
          (let (partitions, s1) = new_partitions attr_values s
           in case partition_exemplars_h attr (list_objs s ! ex) partitions s1 of
                (Inl e, s2) \<Rightarrow> (Inl e, s2)
              | (Inr u, s2) \<Rightarrow> (Inr partitions, s2)))"

text \<open>
  Lines 182-212. The score of lines 198-204 reads the outputs of the partition lists;
  \<open>best_attr\<close> keeps the references to them.
\<close>

definition partitions_at ::
  "('k, 'v, 'o) store \<Rightarrow> ('v \<times> nat) list \<Rightarrow> ('k, 'v, 'o) partitions" where
  "partitions_at s partitions = map (\<lambda>(attr_value, l). (attr_value, exemplars_at s l)) partitions"

definition consider_attr_h ::
  "'f::linorder float_ops \<Rightarrow> ('v list \<Rightarrow> 'v list) \<Rightarrow> ('o pyval list \<Rightarrow> 'o pyval list)
    \<Rightarrow> nat \<Rightarrow> 'k \<Rightarrow> ('k \<times> 'f \<times> ('v \<times> nat) list) option \<Rightarrow> ('k, 'v, 'o) store
    \<Rightarrow> (error + ('k \<times> 'f \<times> ('v \<times> nat) list) option) \<times> ('k, 'v, 'o) store" where
  "consider_attr_h fl iter_v iter_o ex attr best_attr s =
     (case make_partitions_h iter_v attr ex s of
        (Inl e, s1) \<Rightarrow> (Inl e, s1)
      | (Inr partitions, s1) \<Rightarrow>
          (let attr_entropy = attr_entropy_of fl iter_o (partitions_at s1 partitions)
           in case best_attr of
                None \<Rightarrow> (Inr (Some (attr, attr_entropy, partitions)), s1)
              | Some (best, best_entropy, best_partitions) \<Rightarrow>
                  if attr_entropy < best_entropy
                  then (Inr (Some (attr, attr_entropy, partitions)), s1)
                  else (Inr best_attr, s1)))"

fun find_best_attr_h ::
  "'f::linorder float_ops \<Rightarrow> ('v list \<Rightarrow> 'v list) \<Rightarrow> ('o pyval list \<Rightarrow> 'o pyval list)
    \<Rightarrow> nat \<Rightarrow> 'k list \<Rightarrow> ('k \<times> 'f \<times> ('v \<times> nat) list) option \<Rightarrow> ('k, 'v, 'o) store
    \<Rightarrow> (error + ('k \<times> 'f \<times> ('v \<times> nat) list) option) \<times> ('k, 'v, 'o) store" where
  "find_best_attr_h fl iter_v iter_o ex [] best_attr s = (Inr best_attr, s)"
| "find_best_attr_h fl iter_v iter_o ex (attr # attrs) best_attr s =
     (case consider_attr_h fl iter_v iter_o ex attr best_attr s of
        (Inl e, s1) \<Rightarrow> (Inl e, s1)
      | (Inr best_attr', s1) \<Rightarrow> find_best_attr_h fl iter_v iter_o ex attrs best_attr' s1)"

text \<open>
  Lines 215-219: the recursive calls \<open>f\<close> on the partitions, in order, each on the store
  that the call before it left; the loop stops at the first call that raises.
\<close>

fun subnodes_h ::
  "(nat \<Rightarrow> ('k, 'v, 'o) store \<Rightarrow> ((error + ('k, 'v, 'o) node) \<times> ('k, 'v, 'o) store) option)
    \<Rightarrow> ('v \<times> nat) list \<Rightarrow> ('k, 'v, 'o) store
    \<Rightarrow> ((error + ('v \<times> ('k, 'v, 'o) node) list) \<times> ('k, 'v, 'o) store) option" where
  "subnodes_h f [] s = Some (Inr [], s)"
| "subnodes_h f ((attr_value, part) # rest) s =
     (case f part s of
        None \<Rightarrow> None
      | Some (Inl e, s1) \<Rightarrow> Some (Inl e, s1)
      | Some (Inr subnode, s1) \<Rightarrow>
          (case subnodes_h f rest s1 of
             None \<Rightarrow> None
           | Some (Inl e, s2) \<Rightarrow> Some (Inl e, s2)
           | Some (Inr value_subnode_pairs, s2) \<Rightarrow>
               Some (Inr ((attr_value, subnode) # value_subnode_pairs), s2)))"

text \<open>
  \<open>id3_helper\<close> (lines 152-221) on the list object \<open>ex\<close>. The first argument bounds the
  depth of the recursive calls; \<open>None\<close> says that the bound was reached.
\<close>

primrec id3_helper_h ::
  "nat \<Rightarrow> 'f::linorder float_ops \<Rightarrow> ('v list \<Rightarrow> 'v list) \<Rightarrow> ('o pyval list \<Rightarrow> 'o pyval list)
    \<Rightarrow> nat \<Rightarrow> ('k, 'v, 'o) store
    \<Rightarrow> ((error + ('k, 'v, 'o) node) \<times> ('k, 'v, 'o) store) option" where
  "id3_helper_h 0 fl iter_v iter_o ex s = None"
| "id3_helper_h (Suc n) fl iter_v iter_o ex s =
     (let exemplars = exemplars_at s ex;
          output_set = set (map snd exemplars)
      in if card output_set = 0 then Some (Inr (Leaf PyNone), s)
         else if card output_set = 1 then Some (Inr (Leaf (snd (hd exemplars))), s)
         else if inputs_all_same exemplars
         then Some (Inr (Leaf (most_common_output iter_o (map snd exemplars))), s)
         else (case find_best_attr_h fl iter_v iter_o ex (keys (fst (hd exemplars))) None s of
                 (Inl e, s1) \<Rightarrow> Some (Inl e, s1)
               | (Inr None, s1) \<Rightarrow> Some (Inl TypeError, s1)
               | (Inr (Some (attr, entropy, partitions)), s1) \<Rightarrow>
                   (case subnodes_h (id3_helper_h n fl iter_v iter_o) partitions s1 of
                      None \<Rightarrow> None
                    | Some (Inl e, s2) \<Rightarrow> Some (Inl e, s2)
                    | Some (Inr value_subnode_pairs, s2) \<Rightarrow>
                        Some (Inr (ID3DecisionTreeNode attr value_subnode_pairs), s2))))"

definition id3_h ::
  "nat \<Rightarrow> 'f::linorder float_ops \<Rightarrow> ('v list \<Rightarrow> 'v list) \<Rightarrow> ('o pyval list \<Rightarrow> 'o pyval list)
    \<Rightarrow> nat \<Rightarrow> ('k, 'v, 'o) store
    \<Rightarrow> ((error + ('k, 'v, 'o) tree) \<times> ('k, 'v, 'o) store) option" where
  "id3_h n fl iter_v iter_o ex s =
     (case id3_helper_h n fl iter_v iter_o ex s of
        None \<Rightarrow> None
      | Some (Inl e, s1) \<Rightarrow> Some (Inl e, s1)
      | Some (Inr node, s1) \<Rightarrow> Some (Inr (ID3DecisionTree node), s1))"

text \<open>Every object of \<open>s\<close> is in \<open>s'\<close>, at its address and with its value.\<close>

definition extends :: "('k, 'v, 'o) store \<Rightarrow> ('k, 'v, 'o) store \<Rightarrow> bool" where
  "extends s s' \<longleftrightarrow> prefix (dict_objs s) (dict_objs s') \<and> prefix (list_objs s) (list_objs s')"

text \<open>\<open>ex\<close> is the address of a list object whose exemplars refer to dict objects.\<close>

definition valid_list :: "('k, 'v, 'o) store \<Rightarrow> nat \<Rightarrow> bool" where
  "valid_list s ex \<longleftrightarrow>
     ex < length (list_objs s) \<and> (\<forall>x \<in> set (list_objs s ! ex). fst x < length (dict_objs s))"

section \<open>Auxiliary facts\<close>

subsection \<open>Traversal\<close>

lemma getitem_Inl: "(getitem d k = Inl e) = (e = KeyError \<and> k \<notin> set (keys d))"
  unfolding getitem_def keys_def using map_of_eq_None_iff [of d k]
  by (auto split: option.splits)

lemma traverse_error:
  "(traverse t inputs = Inl e) = (e = KeyError \<and> (\<exists>a \<in> set (visited t inputs). a \<notin> set (keys inputs)))"
proof (induction t inputs rule: traverse.induct)
  case (1 x inputs)
  then show ?case by simp
next
  case (2 a pairs inputs)
  show ?case
  proof (cases "getitem inputs a")
    case (Inl e')
    then have "e' = KeyError" "a \<notin> set (keys inputs)" by (auto simp: getitem_Inl)
    with Inl show ?thesis by auto
  next
    case (Inr v)
    then have "a \<in> set (keys inputs)"
      using getitem_Inl [of inputs a KeyError] by auto
    with Inr 2 show ?thesis by auto
  qed
qed

subsection \<open>Majority vote\<close>

lemma most_common_step_apply:
  "most_common_step outputs x (m, c) = (if c < count_list outputs x then (x, count_list outputs x) else (m, c))"
  by (simp add: most_common_step_def)

lemma most_common_fold:
  "fold (most_common_step outputs) xs (m0, c0) = (m, c) \<Longrightarrow>
     c0 \<le> c \<and> (\<forall>x \<in> set xs. count_list outputs x \<le> c)
     \<and> ((m, c) = (m0, c0) \<or> (m \<in> set xs \<and> c = count_list outputs m))"
proof (induction xs arbitrary: m0 c0)
  case Nil
  then show ?case by simp
next
  case (Cons x xs)
  show ?case
  proof (cases "count_list outputs x > c0")
    case True
    with Cons.prems have "fold (most_common_step outputs) xs (x, count_list outputs x) = (m, c)"
      by (simp add: most_common_step_apply)
    from Cons.IH [OF this] True show ?thesis by auto
  next
    case False
    with Cons.prems have "fold (most_common_step outputs) xs (m0, c0) = (m, c)"
      by (simp add: most_common_step_apply)
    from Cons.IH [OF this] False show ?thesis by auto
  qed
qed

lemma most_common_output_max:
  assumes "set_order iter_o" and "outputs \<noteq> []"
  shows "most_common_output iter_o outputs \<in> set outputs
       \<and> (\<forall>x. count_list outputs x \<le> count_list outputs (most_common_output iter_o outputs))"
proof -
  obtain m c where f: "fold (most_common_step outputs) (iter_o outputs) (PyNone, 0) = (m, c)"
    by (cases "fold (most_common_step outputs) (iter_o outputs) (PyNone, 0)")
  then have m: "most_common_output iter_o outputs = m" by (simp add: most_common_output_def)
  from assms(1) have s: "set (iter_o outputs) = set outputs" by (simp add: set_order_def)
  from most_common_fold [OF f] s have
    le: "\<forall>x \<in> set outputs. count_list outputs x \<le> c" and
    alt: "(m, c) = (PyNone, 0) \<or> (m \<in> set outputs \<and> c = count_list outputs m)"
    by auto
  from assms(2) obtain y where y: "y \<in> set outputs" by (cases outputs) auto
  then have "0 < count_list outputs y" using count_list_0_iff [of outputs y] by auto
  with le y have "0 < c" by fastforce
  with alt have mm: "m \<in> set outputs" "c = count_list outputs m" by auto
  have "count_list outputs x \<le> c" for x
  proof (cases "x \<in> set outputs")
    case True
    with le show ?thesis by blast
  next
    case False
    then show ?thesis by (simp add: count_list_0_iff)
  qed
  with mm m show ?thesis by simp
qed

lemma set_order_remdups: "set_order remdups"
  by (simp add: set_order_def)

subsection \<open>Attribute selection\<close>

lemma consider_attr_Inr:
  assumes "consider_attr fl iter_v iter_o exemplars attr best = Inr b'"
  shows "\<exists>ps. make_partitions iter_v attr exemplars = Inr ps
           \<and> attr_score fl iter_v iter_o exemplars attr = Some (attr_entropy_of fl iter_o ps)
           \<and> b' = (case best of
                     None \<Rightarrow> Some (attr, attr_entropy_of fl iter_o ps, ps)
                   | Some (b, eb, pb) \<Rightarrow>
                       if attr_entropy_of fl iter_o ps < eb
                       then Some (attr, attr_entropy_of fl iter_o ps, ps) else best)"
  using assms
  by (auto simp: consider_attr_def attr_score_def Let_def split: sum.splits option.splits if_splits)

lemma find_best_attr_first_min:
  "find_best_attr fl iter_v iter_o exemplars attrs best = Inr (Some (a, e, ps)) \<Longrightarrow>
     (\<forall>x \<in> set attrs. \<exists>s. attr_score fl iter_v iter_o exemplars x = Some s \<and> e \<le> s)
   \<and> (\<forall>b eb pb. best = Some (b, eb, pb) \<longrightarrow> e \<le> eb)
   \<and> (best = Some (a, e, ps)
      \<or> (\<exists>pre post. attrs = pre @ a # post
            \<and> make_partitions iter_v a exemplars = Inr ps \<and> e = attr_entropy_of fl iter_o ps
            \<and> (\<forall>x \<in> set pre. \<exists>s. attr_score fl iter_v iter_o exemplars x = Some s \<and> e < s)
            \<and> (\<forall>b eb pb. best = Some (b, eb, pb) \<longrightarrow> e < eb)))"
proof (induction attrs arbitrary: best)
  case Nil
  then show ?case by simp
next
  case (Cons x xs)
  from Cons.prems obtain b1 where
    c: "consider_attr fl iter_v iter_o exemplars x best = Inr b1" and
    f: "find_best_attr fl iter_v iter_o exemplars xs b1 = Inr (Some (a, e, ps))"
    by (auto split: sum.splits)
  from consider_attr_Inr [OF c] obtain px where
    mk: "make_partitions iter_v x exemplars = Inr px" and
    sx: "attr_score fl iter_v iter_o exemplars x = Some (attr_entropy_of fl iter_o px)" and
    b1: "b1 = (case best of
                 None \<Rightarrow> Some (x, attr_entropy_of fl iter_o px, px)
               | Some (b, eb, pb) \<Rightarrow>
                   if attr_entropy_of fl iter_o px < eb
                   then Some (x, attr_entropy_of fl iter_o px, px) else best)"
    by blast
  define s where "s = attr_entropy_of fl iter_o px"
  from Cons.IH [OF f] have
    all: "\<forall>y \<in> set xs. \<exists>t. attr_score fl iter_v iter_o exemplars y = Some t \<and> e \<le> t" and
    le1: "\<forall>b eb pb. b1 = Some (b, eb, pb) \<longrightarrow> e \<le> eb" and
    alt: "b1 = Some (a, e, ps)
      \<or> (\<exists>pre post. xs = pre @ a # post
            \<and> make_partitions iter_v a exemplars = Inr ps \<and> e = attr_entropy_of fl iter_o ps
            \<and> (\<forall>y \<in> set pre. \<exists>t. attr_score fl iter_v iter_o exemplars y = Some t \<and> e < t)
            \<and> (\<forall>b eb pb. b1 = Some (b, eb, pb) \<longrightarrow> e < eb))"
    by blast+
  consider (new) "b1 = Some (x, s, px)" "\<forall>b eb pb. best = Some (b, eb, pb) \<longrightarrow> s < eb"
    | (old) b eb pb where "best = Some (b, eb, pb)" "b1 = best" "eb \<le> s"
    using b1 by (auto simp: s_def split: option.splits if_splits)
  then show ?case
  proof cases
    case new
    from new(1) le1 have es: "e \<le> s" by simp
    have p1: "\<forall>y \<in> set (x # xs). \<exists>t. attr_score fl iter_v iter_o exemplars y = Some t \<and> e \<le> t"
      using all sx es by (simp add: s_def)
    have p2: "\<forall>b eb pb. best = Some (b, eb, pb) \<longrightarrow> e \<le> eb"
      using new(2) es by fastforce
    from alt show ?thesis
    proof
      assume "b1 = Some (a, e, ps)"
      with new(1) have eq: "a = x" "e = s" "ps = px" by simp_all
      have "x # xs = [] @ a # xs" by (simp add: eq)
      moreover have "make_partitions iter_v a exemplars = Inr ps" using mk eq by simp
      moreover have "e = attr_entropy_of fl iter_o ps" using eq by (simp add: s_def)
      moreover have "\<forall>b eb pb. best = Some (b, eb, pb) \<longrightarrow> e < eb" using new(2) eq by simp
      ultimately show ?thesis using p1 p2 by (intro conjI disjI2 exI [of _ "[]"] exI [of _ xs]) simp_all
    next
      assume "\<exists>pre post. xs = pre @ a # post
            \<and> make_partitions iter_v a exemplars = Inr ps \<and> e = attr_entropy_of fl iter_o ps
            \<and> (\<forall>y \<in> set pre. \<exists>t. attr_score fl iter_v iter_o exemplars y = Some t \<and> e < t)
            \<and> (\<forall>b eb pb. b1 = Some (b, eb, pb) \<longrightarrow> e < eb)"
      then obtain pre post where
        xs: "xs = pre @ a # post" and mka: "make_partitions iter_v a exemplars = Inr ps"
        and e: "e = attr_entropy_of fl iter_o ps"
        and pre: "\<forall>y \<in> set pre. \<exists>t. attr_score fl iter_v iter_o exemplars y = Some t \<and> e < t"
        and lt1: "\<forall>b eb pb. b1 = Some (b, eb, pb) \<longrightarrow> e < eb"
        by blast
      from lt1 new(1) have "e < s" by simp
      then have "\<forall>y \<in> set (x # pre). \<exists>t. attr_score fl iter_v iter_o exemplars y = Some t \<and> e < t"
        using pre sx by (simp add: s_def)
      moreover have "x # xs = (x # pre) @ a # post" by (simp add: xs)
      moreover have "\<forall>b eb pb. best = Some (b, eb, pb) \<longrightarrow> e < eb"
        using new(2) \<open>e < s\<close> by fastforce
      ultimately show ?thesis using p1 p2 mka e
        by (intro conjI disjI2 exI [of _ "x # pre"] exI [of _ post]) simp_all
    qed
  next
    case old
    from old(1,2) le1 have eeb: "e \<le> eb" by simp
    with old(3) have es: "e \<le> s" by simp
    have p1: "\<forall>y \<in> set (x # xs). \<exists>t. attr_score fl iter_v iter_o exemplars y = Some t \<and> e \<le> t"
      using all sx es by (simp add: s_def)
    have p2: "\<forall>b eb pb. best = Some (b, eb, pb) \<longrightarrow> e \<le> eb"
      using old(1) eeb by simp
    from alt show ?thesis
    proof
      assume "b1 = Some (a, e, ps)"
      with old(2) have "best = Some (a, e, ps)" by simp
      with p1 p2 show ?thesis by blast
    next
      assume "\<exists>pre post. xs = pre @ a # post
            \<and> make_partitions iter_v a exemplars = Inr ps \<and> e = attr_entropy_of fl iter_o ps
            \<and> (\<forall>y \<in> set pre. \<exists>t. attr_score fl iter_v iter_o exemplars y = Some t \<and> e < t)
            \<and> (\<forall>b eb pb. b1 = Some (b, eb, pb) \<longrightarrow> e < eb)"
      then obtain pre post where
        xs: "xs = pre @ a # post" and mka: "make_partitions iter_v a exemplars = Inr ps"
        and e: "e = attr_entropy_of fl iter_o ps"
        and pre: "\<forall>y \<in> set pre. \<exists>t. attr_score fl iter_v iter_o exemplars y = Some t \<and> e < t"
        and lt1: "\<forall>b eb pb. b1 = Some (b, eb, pb) \<longrightarrow> e < eb"
        by blast
      from lt1 old(1,2) have "e < eb" by simp
      with old(3) have "e < s" by simp
      then have "\<forall>y \<in> set (x # pre). \<exists>t. attr_score fl iter_v iter_o exemplars y = Some t \<and> e < t"
        using pre sx by (simp add: s_def)
      moreover have "x # xs = (x # pre) @ a # post" by (simp add: xs)
      moreover have "\<forall>b eb' pb. best = Some (b, eb', pb) \<longrightarrow> e < eb'"
        using old(1) \<open>e < eb\<close> by simp
      ultimately show ?thesis using p1 p2 mka e
        by (intro conjI disjI2 exI [of _ "x # pre"] exI [of _ post]) simp_all
    qed
  qed
qed

subsection \<open>The partitions of an attribute\<close>

text \<open>
  \<open>has_attr\<close>: every exemplar has the attribute. \<open>attr_vals\<close>: the values of the
  attribute, one for each exemplar. \<open>group_of\<close>: the exemplars with a given value of the
  attribute, the attribute removed, in their order.
\<close>

definition has_attr :: "'k \<Rightarrow> ('k, 'v, 'o) exemplar list \<Rightarrow> bool" where
  "has_attr attr exemplars \<longleftrightarrow> (\<forall>x \<in> set exemplars. map_of (fst x) attr \<noteq> None)"

definition attr_vals :: "'k \<Rightarrow> ('k, 'v, 'o) exemplar list \<Rightarrow> 'v list" where
  "attr_vals attr exemplars = map (\<lambda>x. the (map_of (fst x) attr)) exemplars"

definition group_of :: "'k \<Rightarrow> 'v \<Rightarrow> ('k, 'v, 'o) exemplar list \<Rightarrow> ('k, 'v, 'o) exemplar list" where
  "group_of attr v exemplars =
     map (\<lambda>x. (AList.delete attr (fst x), snd x))
         (filter (\<lambda>x. map_of (fst x) attr = Some v) exemplars)"

lemma collect_getitem:
  "collect (map (\<lambda>(inputs, _). getitem inputs attr) exemplars) =
     (if has_attr attr exemplars then Inr (attr_vals attr exemplars) else Inl KeyError)"
proof (induction exemplars)
  case Nil
  then show ?case by (simp add: has_attr_def attr_vals_def)
next
  case (Cons x xs)
  obtain i outp where x: "x = (i, outp)" by (cases x)
  show ?case
  proof (cases "map_of i attr")
    case None
    then show ?thesis by (simp add: x getitem_def has_attr_def)
  next
    case (Some v)
    with Cons show ?thesis by (simp add: x getitem_def has_attr_def attr_vals_def)
  qed
qed

lemma attr_values_of_eq:
  "attr_values_of iter_v attr exemplars =
     (if has_attr attr exemplars then Inr (iter_v (attr_vals attr exemplars)) else Inl KeyError)"
  by (simp add: attr_values_of_def collect_getitem)

lemma append_to_eq:
  "distinct (map fst ps) \<Longrightarrow> v \<in> fst ` set ps \<Longrightarrow>
     append_to v x ps = Inr (map (\<lambda>(w, q). (w, if w = v then q @ [x] else q)) ps)"
proof (induction ps)
  case Nil
  then show ?case by simp
next
  case (Cons p ps)
  obtain w q where p: "p = (w, q)" by (cases p)
  show ?case
  proof (cases "w = v")
    case True
    with Cons.prems have "v \<notin> fst ` set ps" by (simp add: p)
    then have "map (\<lambda>(w, q). (w, if w = v then q @ [x] else q)) ps = ps"
      by (intro map_idI) force
    with True show ?thesis by (simp add: p)
  next
    case False
    with Cons show ?thesis by (auto simp: p)
  qed
qed

lemma group_of_Cons:
  "group_of attr w ((i, outp) # ex) =
     (if map_of i attr = Some w then (AList.delete attr i, outp) # group_of attr w ex
      else group_of attr w ex)"
  by (simp add: group_of_def)

lemma partition_exemplars_eq:
  "distinct (map fst ps) \<Longrightarrow> has_attr attr ex \<Longrightarrow> set (attr_vals attr ex) \<subseteq> fst ` set ps \<Longrightarrow>
     partition_exemplars attr ex ps = Inr (map (\<lambda>(w, q). (w, q @ group_of attr w ex)) ps)"
proof (induction ex arbitrary: ps)
  case Nil
  then show ?case by (simp add: group_of_def case_prod_unfold)
next
  case (Cons x ex)
  obtain i outp where x: "x = (i, outp)" by (cases x)
  from Cons.prems(2) obtain v where v: "map_of i attr = Some v" by (auto simp: has_attr_def x)
  with Cons.prems(3) have vin: "v \<in> fst ` set ps" by (simp add: attr_vals_def x)
  let ?ps1 = "map (\<lambda>(w, q). (w, if w = v then q @ [(AList.delete attr i, outp)] else q)) ps"
  have app: "append_to v (AList.delete attr i, outp) ps = Inr ?ps1"
    by (rule append_to_eq [OF Cons.prems(1) vin])
  have fst1: "map fst ?ps1 = map fst ps" by (simp add: case_prod_unfold comp_def)
  have d1: "distinct (map fst ?ps1)" using Cons.prems(1) by (simp only: fst1)
  have h1: "has_attr attr ex" using Cons.prems(2) by (simp add: has_attr_def)
  have s1: "set (attr_vals attr ex) \<subseteq> fst ` set ?ps1"
  proof -
    have "fst ` set ?ps1 = set (map fst ?ps1)" by (simp only: set_map)
    also have "\<dots> = fst ` set ps" by (simp only: fst1 set_map)
    finally show ?thesis using Cons.prems(3) by (simp add: attr_vals_def)
  qed
  have "partition_exemplars attr (x # ex) ps = partition_exemplars attr ex ?ps1"
    using v app by (simp add: x pop_def)
  also have "\<dots> = Inr (map (\<lambda>(w, q). (w, q @ group_of attr w ex)) ?ps1)"
    by (rule Cons.IH [OF d1 h1 s1])
  also have "map (\<lambda>(w, q). (w, q @ group_of attr w ex)) ?ps1
           = map (\<lambda>(w, q). (w, q @ group_of attr w (x # ex))) ps"
    using v by (auto simp: x group_of_Cons)
  finally show ?case .
qed

lemma make_partitions_eq:
  assumes "set_order iter_v"
  shows "make_partitions iter_v attr exemplars =
     (if has_attr attr exemplars
      then Inr (map (\<lambda>v. (v, group_of attr v exemplars)) (iter_v (attr_vals attr exemplars)))
      else Inl KeyError)"
proof (cases "has_attr attr exemplars")
  case False
  then show ?thesis by (simp add: make_partitions_def attr_values_of_eq)
next
  case True
  let ?vs = "iter_v (attr_vals attr exemplars)"
  from assms have d: "distinct ?vs" and s: "set ?vs = set (attr_vals attr exemplars)"
    by (simp_all add: set_order_def)
  have "partition_exemplars attr exemplars (map (\<lambda>attr_value. (attr_value, [])) ?vs)
      = Inr (map (\<lambda>(w, q). (w, q @ group_of attr w exemplars)) (map (\<lambda>attr_value. (attr_value, [])) ?vs))"
    using d s True by (intro partition_exemplars_eq) (simp_all add: comp_def image_image)
  with True show ?thesis by (simp add: make_partitions_def attr_values_of_eq comp_def)
qed

subsection \<open>Entropy\<close>

text \<open>
  The terms of the score as the specification words it: one term for each value-group
  of the attribute and each output value that occurs in the group, given by the pair of
  \<open>count\<close> and \<open>group_size\<close>, in the order in which the two loops meet them.
  \<open>spec_score\<close> subtracts \<open>count * log2(count / group_size)\<close> for each term in turn,
  starting from 0, with the operations of \<open>fl\<close>.
\<close>

definition score_terms ::
  "('v list \<Rightarrow> 'v list) \<Rightarrow> ('o pyval list \<Rightarrow> 'o pyval list) \<Rightarrow> 'k \<Rightarrow> ('k, 'v, 'o) exemplar list
    \<Rightarrow> (nat \<times> nat) list" where
  "score_terms iter_v iter_o attr exemplars =
     concat (map (\<lambda>v. map (\<lambda>outp. (count_list (map snd (group_of attr v exemplars)) outp,
                                     length (group_of attr v exemplars)))
                            (iter_o (map snd (group_of attr v exemplars))))
                 (iter_v (attr_vals attr exemplars)))"

definition subtract_term :: "'f float_ops \<Rightarrow> nat \<times> nat \<Rightarrow> 'f \<Rightarrow> 'f" where
  "subtract_term fl t acc = fl_sub fl acc (fl_mul fl (fst t) (fl_log2 fl (fl_div fl (fst t) (snd t))))"

definition spec_score :: "'f float_ops \<Rightarrow> (nat \<times> nat) list \<Rightarrow> 'f" where
  "spec_score fl terms = fold (subtract_term fl) terms (fl_zero fl)"

text \<open>
  What the claims about the sign of the score use of the float operations. Each holds of
  IEEE 754 arithmetic with a \<open>log2\<close> that is exact at 1 and not positive on arguments up
  to 1: \<open>n / n\<close> is 1, \<open>log2(1.0)\<close> is 0, a product with 0 is 0, subtracting 0 changes
  nothing, a quotient \<open>c / n\<close> with \<open>0 < c \<le> n\<close> has a logarithm that is not positive,
  the product of a count and a number that is not positive is not positive, and
  subtracting such a number from one that is not negative gives one that is not negative.
\<close>

definition float_laws :: "'f::linorder float_ops \<Rightarrow> bool" where
  "float_laws fl \<longleftrightarrow>
     (\<forall>n. 0 < n \<longrightarrow> fl_log2 fl (fl_div fl n n) = fl_zero fl)
   \<and> (\<forall>c. fl_mul fl c (fl_zero fl) = fl_zero fl)
   \<and> (\<forall>x. fl_sub fl x (fl_zero fl) = x)
   \<and> (\<forall>c n. 0 < c \<and> c \<le> n \<longrightarrow> fl_log2 fl (fl_div fl c n) \<le> fl_zero fl)
   \<and> (\<forall>c y. y \<le> fl_zero fl \<longrightarrow> fl_mul fl c y \<le> fl_zero fl)
   \<and> (\<forall>x y. fl_zero fl \<le> x \<and> y \<le> fl_zero fl \<longrightarrow> fl_zero fl \<le> fl_sub fl x y)"

text \<open>
  The arithmetic without rounding, on the real numbers. Floating-point arithmetic agrees
  with it as long as every intermediate result is a float.
\<close>

definition exact_arith :: "real float_ops" where
  "exact_arith =
     \<lparr> fl_zero = 0,
       fl_div = (\<lambda>c n. real c / real n),
       fl_log2 = log 2,
       fl_mul = (\<lambda>c y. real c * y),
       fl_sub = (\<lambda>x y. x - y) \<rparr>"

text \<open>The sum of the specification, over the real numbers.\<close>

definition exact_sum :: "'k \<Rightarrow> ('k, 'v, 'o) exemplar list \<Rightarrow> real" where
  "exact_sum attr exemplars =
     (\<Sum>v \<in> set (attr_vals attr exemplars).
        \<Sum>outp \<in> set (map snd (group_of attr v exemplars)).
          - real (count_list (map snd (group_of attr v exemplars)) outp)
            * log 2 (real (count_list (map snd (group_of attr v exemplars)) outp)
                     / real (length (group_of attr v exemplars))))"

lemma exact_arith_simps [simp]:
  "fl_zero exact_arith = 0"
  "fl_div exact_arith c n = real c / real n"
  "fl_log2 exact_arith x = log 2 x"
  "fl_mul exact_arith c y = real c * y"
  "fl_sub exact_arith x y = x - y"
  by (simp_all add: exact_arith_def)

lemma group_entropy_terms:
  "group_entropy fl iter_o outputs acc
     = fold (subtract_term fl)
            (map (\<lambda>outp. (count_list outputs outp, length outputs)) (iter_o outputs)) acc"
  by (simp add: group_entropy_def fold_map comp_def subtract_term_def [abs_def] entropy_term_def Let_def)

lemma attr_entropy_of_terms:
  "fold (\<lambda>(attr_value, partition) attr_entropy.
             group_entropy fl iter_o (map snd partition) attr_entropy)
        (map (\<lambda>v. (v, g v)) vs) acc
     = fold (subtract_term fl)
            (concat (map (\<lambda>v. map (\<lambda>outp. (count_list (map snd (g v)) outp, length (g v)))
                                   (iter_o (map snd (g v)))) vs)) acc"
  by (induction vs arbitrary: acc) (simp_all add: group_entropy_terms)

lemma attr_score_terms:
  assumes "set_order iter_v" and "has_attr attr exemplars"
  shows "attr_score fl iter_v iter_o exemplars attr
       = Some (spec_score fl (score_terms iter_v iter_o attr exemplars))"
  using assms(2)
  by (simp add: attr_score_def make_partitions_eq [OF assms(1)] attr_entropy_of_def
      attr_entropy_of_terms spec_score_def score_terms_def)

lemma count_list_pure: "set outputs = {outp} \<Longrightarrow> count_list outputs outp = length outputs"
proof (induction outputs)
  case Nil
  then show ?case by simp
next
  case (Cons x xs)
  then have x: "x = outp" by auto
  show ?case
  proof (cases "xs = []")
    case True
    with x show ?thesis by simp
  next
    case False
    with Cons.prems have "set xs = {outp}" by (cases xs) auto
    with Cons.IH x show ?thesis by simp
  qed
qed

lemma distinct_singleton: "distinct xs \<Longrightarrow> set xs = {x} \<Longrightarrow> xs = [x]"
proof -
  assume d: "distinct xs" and s: "set xs = {x}"
  from d have "length xs = card (set xs)" by (simp add: distinct_card)
  with s have "length xs = 1" by simp
  then obtain y where "xs = [y]" by (cases xs) auto
  with s show ?thesis by simp
qed

lemma group_entropy_pure:
  assumes "float_laws fl" and "set_order iter_o" and "set outputs = {outp}"
  shows "group_entropy fl iter_o outputs acc = acc"
proof -
  from assms(2) have "distinct (iter_o outputs)" "set (iter_o outputs) = set outputs"
    by (simp_all add: set_order_def)
  with assms(3) have it: "iter_o outputs = [outp]" by (simp add: distinct_singleton)
  from assms(3) have n: "0 < length outputs" by (cases outputs) auto
  from assms(1) n have "fl_log2 fl (fl_div fl (length outputs) (length outputs)) = fl_zero fl"
    by (simp add: float_laws_def)
  moreover from assms(1) have "fl_mul fl (length outputs) (fl_zero fl) = fl_zero fl"
    by (simp add: float_laws_def)
  moreover from assms(1) have "fl_sub fl acc (fl_zero fl) = acc"
    by (simp add: float_laws_def)
  ultimately show ?thesis
    by (simp add: group_entropy_def it entropy_term_def count_list_pure [OF assms(3)])
qed

lemma subtract_term_nonneg:
  assumes "float_laws fl" and "fl_zero fl \<le> acc" and "0 < fst t" and "fst t \<le> snd t"
  shows "fl_zero fl \<le> subtract_term fl t acc"
proof -
  from assms(1,3,4) have "fl_log2 fl (fl_div fl (fst t) (snd t)) \<le> fl_zero fl"
    by (simp add: float_laws_def)
  with assms(1) have "fl_mul fl (fst t) (fl_log2 fl (fl_div fl (fst t) (snd t))) \<le> fl_zero fl"
    by (simp add: float_laws_def)
  with assms(1,2) show ?thesis
    unfolding subtract_term_def by (simp add: float_laws_def)
qed

lemma fold_subtract_nonneg:
  assumes "float_laws fl"
  shows "fl_zero fl \<le> acc \<Longrightarrow> (\<forall>t \<in> set ts. 0 < fst t \<and> fst t \<le> snd t)
     \<Longrightarrow> fl_zero fl \<le> fold (subtract_term fl) ts acc"
proof (induction ts arbitrary: acc)
  case Nil
  then show ?case by simp
next
  case (Cons t ts)
  from Cons.prems have "fl_zero fl \<le> subtract_term fl t acc"
    by (intro subtract_term_nonneg [OF assms]) simp_all
  with Cons.IH Cons.prems(2) show ?case by simp
qed

lemma score_terms_counts:
  assumes "set_order iter_o" and "t \<in> set (score_terms iter_v iter_o attr exemplars)"
  shows "0 < fst t \<and> fst t \<le> snd t"
proof -
  from assms(2) obtain v outp where
    o: "outp \<in> set (iter_o (map snd (group_of attr v exemplars)))" and
    t: "t = (count_list (map snd (group_of attr v exemplars)) outp, length (group_of attr v exemplars))"
    by (auto simp: score_terms_def)
  from assms(1) o have "outp \<in> set (map snd (group_of attr v exemplars))"
    by (simp add: set_order_def)
  then have "0 < count_list (map snd (group_of attr v exemplars)) outp"
    using count_list_0_iff [of "map snd (group_of attr v exemplars)" outp] by auto
  moreover have "count_list (map snd (group_of attr v exemplars)) outp
      \<le> length (map snd (group_of attr v exemplars))"
    by (rule count_le_length)
  ultimately show ?thesis by (simp add: t)
qed

lemma spec_score_nonneg:
  assumes "float_laws fl" and "set_order iter_o"
  shows "fl_zero fl \<le> spec_score fl (score_terms iter_v iter_o attr exemplars)"
  unfolding spec_score_def
proof (rule fold_subtract_nonneg [OF assms(1)])
  show "fl_zero fl \<le> fl_zero fl" by simp
next
  show "\<forall>t \<in> set (score_terms iter_v iter_o attr exemplars). 0 < fst t \<and> fst t \<le> snd t"
  proof
    fix t assume "t \<in> set (score_terms iter_v iter_o attr exemplars)"
    with assms(2) show "0 < fst t \<and> fst t \<le> snd t" by (rule score_terms_counts)
  qed
qed

lemma fold_minus: "fold (\<lambda>x (acc::real). acc - f x) xs acc = acc - sum_list (map f xs)"
  by (induction xs arbitrary: acc) (simp_all add: algebra_simps)

lemma sum_list_concat_map:
  "sum_list (concat (map f xs)) = sum_list (map (\<lambda>x. sum_list (f x :: real list)) xs)"
  by (induction xs) simp_all

lemma spec_score_exact:
  assumes "set_order iter_v" and "set_order iter_o"
  shows "spec_score exact_arith (score_terms iter_v iter_o attr exemplars) = exact_sum attr exemplars"
proof -
  let ?vs = "iter_v (attr_vals attr exemplars)"
  let ?outs = "\<lambda>v. map snd (group_of attr v exemplars)"
  let ?T = "\<lambda>v outp. real (count_list (?outs v) outp)
              * log 2 (real (count_list (?outs v) outp) / real (length (group_of attr v exemplars)))"
  from assms(1) have d: "distinct ?vs" and s: "set ?vs = set (attr_vals attr exemplars)"
    by (simp_all add: set_order_def)
  have do: "\<And>v. distinct (iter_o (?outs v))" and so: "\<And>v. set (iter_o (?outs v)) = set (?outs v)"
    using assms(2) by (simp_all add: set_order_def)
  have "spec_score exact_arith (score_terms iter_v iter_o attr exemplars)
      = - sum_list (map (\<lambda>t. real (fst t) * log 2 (real (fst t) / real (snd t)))
                        (score_terms iter_v iter_o attr exemplars))"
    unfolding spec_score_def subtract_term_def by (simp add: fold_minus)
  also have "sum_list (map (\<lambda>t. real (fst t) * log 2 (real (fst t) / real (snd t)))
                        (score_terms iter_v iter_o attr exemplars))
      = sum_list (map (\<lambda>v. sum_list (map (?T v) (iter_o (?outs v)))) ?vs)"
    unfolding score_terms_def by (simp add: map_concat sum_list_concat_map comp_def)
  also have "\<dots> = sum_list (map (\<lambda>v. sum (?T v) (set (?outs v))) ?vs)"
  proof -
    have "\<And>v. sum_list (map (?T v) (iter_o (?outs v))) = sum (?T v) (set (?outs v))"
    proof -
      fix v
      have "sum_list (map (?T v) (iter_o (?outs v))) = sum (?T v) (set (iter_o (?outs v)))"
        using do by (rule sum_list_distinct_conv_sum_set)
      then show "sum_list (map (?T v) (iter_o (?outs v))) = sum (?T v) (set (?outs v))"
        by (simp only: so)
    qed
    then show ?thesis by (simp only:)
  qed
  also have "\<dots> = sum (\<lambda>v. sum (?T v) (set (?outs v))) (set ?vs)"
    using d by (rule sum_list_distinct_conv_sum_set)
  finally show ?thesis
    unfolding exact_sum_def s by (simp add: sum_negf [symmetric])
qed

lemma float_laws_exact: "float_laws exact_arith"
proof -
  have "\<And>c n. 0 < c \<Longrightarrow> c \<le> n \<Longrightarrow> log 2 (real c / real n) \<le> 0"
  proof -
    fix c n :: nat assume c: "0 < c" and n: "c \<le> n"
    then have "real c / real n \<le> 1" "0 < real c / real n" by (simp_all add: field_simps)
    then show "log 2 (real c / real n) \<le> 0"
      by (simp add: zero_less_log_cancel_iff not_less [symmetric])
  qed
  then show ?thesis
    by (simp add: float_laws_def mult_nonneg_nonpos)
qed

subsection \<open>The shape of the tree\<close>

text \<open>
  The shape of a tree that \<open>id3_helper\<close> returns for a partition, as the four branches of
  the code give it.
\<close>

inductive built ::
  "('v list \<Rightarrow> 'v list) \<Rightarrow> ('o pyval list \<Rightarrow> 'o pyval list) \<Rightarrow> ('k, 'v, 'o) exemplar list
    \<Rightarrow> ('k, 'v, 'o) node \<Rightarrow> bool"
  for iter_v :: "'v list \<Rightarrow> 'v list" and iter_o :: "'o pyval list \<Rightarrow> 'o pyval list" where
  built_empty: "exemplars = [] \<Longrightarrow> built iter_v iter_o exemplars (Leaf PyNone)"
| built_pure: "card (set (map snd exemplars)) = 1
     \<Longrightarrow> built iter_v iter_o exemplars (Leaf (snd (hd exemplars)))"
| built_same: "1 < card (set (map snd exemplars)) \<Longrightarrow> inputs_all_same exemplars
     \<Longrightarrow> built iter_v iter_o exemplars (Leaf (most_common_output iter_o (map snd exemplars)))"
| built_split: "1 < card (set (map snd exemplars)) \<Longrightarrow> \<not> inputs_all_same exemplars
     \<Longrightarrow> a \<in> set (keys (fst (hd exemplars))) \<Longrightarrow> has_attr a exemplars
     \<Longrightarrow> map fst pairs = iter_v (attr_vals a exemplars)
     \<Longrightarrow> (\<forall>p \<in> set pairs. built iter_v iter_o (group_of a (fst p) exemplars) (snd p))
     \<Longrightarrow> built iter_v iter_o exemplars (ID3DecisionTreeNode a pairs)"

lemma collect_pairs:
  "collect (map (\<lambda>v. case h v of Inl e \<Rightarrow> Inl e | Inr sub \<Rightarrow> Inr (v, sub)) vs) = Inr pairs
     \<Longrightarrow> map fst pairs = vs \<and> (\<forall>p \<in> set pairs. h (fst p) = Inr (snd p))"
proof (induction vs arbitrary: pairs)
  case Nil
  then show ?case by auto
next
  case (Cons v vs)
  from Cons.prems obtain sub rest where
    h: "h v = Inr sub" and
    c: "collect (map (\<lambda>v. case h v of Inl e \<Rightarrow> Inl e | Inr sub \<Rightarrow> Inr (v, sub)) vs) = Inr rest" and
    p: "pairs = (v, sub) # rest"
    by (auto split: sum.splits)
  from Cons.IH [OF c] h p show ?case by simp
qed

lemma collect_pairs_total:
  "(\<forall>v \<in> set vs. \<exists>sub. h v = Inr sub)
     \<Longrightarrow> \<exists>pairs. collect (map (\<lambda>v. case h v of Inl e \<Rightarrow> Inl e | Inr sub \<Rightarrow> Inr (v, sub)) vs) = Inr pairs"
proof (induction vs)
  case Nil
  then show ?case by simp
next
  case (Cons v vs)
  then obtain sub pairs where "h v = Inr sub"
    and "collect (map (\<lambda>v. case h v of Inl e \<Rightarrow> Inl e | Inr sub \<Rightarrow> Inr (v, sub)) vs) = Inr pairs"
    by auto
  then show ?case by simp
qed

lemma id3_helper_split_eq:
  assumes "set_order iter_v" and "1 < card (set (map snd exemplars))"
    and "\<not> inputs_all_same exemplars"
    and "find_best_attr fl iter_v iter_o exemplars (keys (fst (hd exemplars))) None = Inr (Some (a, e, ps))"
  shows "a \<in> set (keys (fst (hd exemplars)))" and "has_attr a exemplars"
    and "make_partitions iter_v a exemplars = Inr ps"
    and "id3_helper fl iter_v iter_o exemplars =
          (case collect (map (\<lambda>v. case id3_helper fl iter_v iter_o (group_of a v exemplars) of
                                   Inl e \<Rightarrow> Inl e | Inr sub \<Rightarrow> Inr (v, sub))
                             (iter_v (attr_vals a exemplars))) of
             Inl e \<Rightarrow> Inl e
           | Inr pairs \<Rightarrow> Inr (ID3DecisionTreeNode a pairs))"
proof -
  from find_best_attr_origin [OF assms(4)] show
    a: "a \<in> set (keys (fst (hd exemplars)))" and mk: "make_partitions iter_v a exemplars = Inr ps"
    by auto
  from mk show h: "has_attr a exemplars"
    by (simp add: make_partitions_eq [OF assms(1)] split: if_splits)
  with mk have ps: "ps = map (\<lambda>v. (v, group_of a v exemplars)) (iter_v (attr_vals a exemplars))"
    by (simp add: make_partitions_eq [OF assms(1)])
  from assms(2) have c: "card (set (map snd exemplars)) \<noteq> 0" "card (set (map snd exemplars)) \<noteq> 1"
    by auto
  show "id3_helper fl iter_v iter_o exemplars =
          (case collect (map (\<lambda>v. case id3_helper fl iter_v iter_o (group_of a v exemplars) of
                                   Inl e \<Rightarrow> Inl e | Inr sub \<Rightarrow> Inr (v, sub))
                             (iter_v (attr_vals a exemplars))) of
             Inl e \<Rightarrow> Inl e
           | Inr pairs \<Rightarrow> Inr (ID3DecisionTreeNode a pairs))"
    using c assms(3,4) by (subst id3_helper.simps) (simp add: Let_def ps comp_def)
qed

lemma id3_helper_leaf_cases:
  "exemplars = [] \<Longrightarrow> id3_helper fl iter_v iter_o exemplars = Inr (Leaf PyNone)"
  "card (set (map snd exemplars)) = 1 \<Longrightarrow> id3_helper fl iter_v iter_o exemplars = Inr (Leaf (snd (hd exemplars)))"
  "1 < card (set (map snd exemplars)) \<Longrightarrow> inputs_all_same exemplars
     \<Longrightarrow> id3_helper fl iter_v iter_o exemplars = Inr (Leaf (most_common_output iter_o (map snd exemplars)))"
proof -
  show "exemplars = [] \<Longrightarrow> id3_helper fl iter_v iter_o exemplars = Inr (Leaf PyNone)"
    by (subst id3_helper.simps) (simp add: Let_def)
  show "card (set (map snd exemplars)) = 1
      \<Longrightarrow> id3_helper fl iter_v iter_o exemplars = Inr (Leaf (snd (hd exemplars)))"
    by (subst id3_helper.simps) (simp add: Let_def)
  assume "1 < card (set (map snd exemplars))" and s: "inputs_all_same exemplars"
  then have "card (set (map snd exemplars)) \<noteq> 0" "card (set (map snd exemplars)) \<noteq> 1" by auto
  with s show "id3_helper fl iter_v iter_o exemplars
      = Inr (Leaf (most_common_output iter_o (map snd exemplars)))"
    by (subst id3_helper.simps) (simp add: Let_def)
qed

lemma card_outputs_cases:
  obtains "exemplars = []" | "card (set (map snd exemplars)) = 1" | "1 < card (set (map snd exemplars))"
proof (cases "exemplars = []")
  case True
  then show ?thesis using that by blast
next
  case False
  then have "card (set (map snd exemplars)) \<noteq> 0" by simp
  then show ?thesis using that by (cases "card (set (map snd exemplars)) = 1") linarith+
qed

lemma group_arity:
  assumes "set_order iter_v" and "has_attr a exemplars" and "exemplars \<noteq> []"
    and "a \<in> set (keys (fst (hd exemplars)))" and "v \<in> set (iter_v (attr_vals a exemplars))"
  shows "arity (group_of a v exemplars) < arity exemplars"
proof -
  have "make_partitions iter_v a exemplars
      = Inr (map (\<lambda>v. (v, group_of a v exemplars)) (iter_v (attr_vals a exemplars)))"
    using assms(2) by (simp add: make_partitions_eq [OF assms(1)])
  moreover have "(v, group_of a v exemplars)
      \<in> set (map (\<lambda>v. (v, group_of a v exemplars)) (iter_v (attr_vals a exemplars)))"
    using assms(5) by auto
  ultimately show ?thesis using assms(3,4) by (rule arity_partition)
qed

lemma id3_helper_built:
  assumes "set_order iter_v"
  shows "id3_helper fl iter_v iter_o exemplars = Inr t \<Longrightarrow> built iter_v iter_o exemplars t"
proof (induction "arity exemplars" arbitrary: exemplars t rule: less_induct)
  case less
  show ?case
  proof (cases exemplars rule: card_outputs_cases)
    case 1
    with less.prems show ?thesis by (auto simp: id3_helper_leaf_cases intro: built.intros)
  next
    case 2
    with less.prems show ?thesis by (auto simp: id3_helper_leaf_cases intro: built.intros)
  next
    case 3
    show ?thesis
    proof (cases "inputs_all_same exemplars")
      case True
      with 3 less.prems show ?thesis by (auto simp: id3_helper_leaf_cases intro: built.intros)
    next
      case False
      from 3 have ne: "exemplars \<noteq> []" by auto
      from 3 have c: "card (set (map snd exemplars)) \<noteq> 0" "card (set (map snd exemplars)) \<noteq> 1"
        by auto
      obtain a e ps where
        f: "find_best_attr fl iter_v iter_o exemplars (keys (fst (hd exemplars))) None = Inr (Some (a, e, ps))"
        using less.prems c False
        by (subst (asm) id3_helper.simps) (auto simp: Let_def split: sum.splits option.splits)
      note s = id3_helper_split_eq [OF assms 3 False f]
      from less.prems s(4) obtain pairs where
        col: "collect (map (\<lambda>v. case id3_helper fl iter_v iter_o (group_of a v exemplars) of
                                   Inl e \<Rightarrow> Inl e | Inr sub \<Rightarrow> Inr (v, sub))
                             (iter_v (attr_vals a exemplars))) = Inr pairs"
        and t: "t = ID3DecisionTreeNode a pairs"
        by (auto split: sum.splits)
      from collect_pairs [OF col] have
        fs: "map fst pairs = iter_v (attr_vals a exemplars)" and
        sub: "\<forall>p \<in> set pairs. id3_helper fl iter_v iter_o (group_of a (fst p) exemplars) = Inr (snd p)"
        by auto
      have "\<forall>p \<in> set pairs. built iter_v iter_o (group_of a (fst p) exemplars) (snd p)"
      proof
        fix p assume p: "p \<in> set pairs"
        then have "fst p \<in> set (iter_v (attr_vals a exemplars))" using fs by (metis image_eqI set_map)
        then have "arity (group_of a (fst p) exemplars) < arity exemplars"
          by (rule group_arity [OF assms s(2) ne s(1)])
        moreover from sub p have "id3_helper fl iter_v iter_o (group_of a (fst p) exemplars) = Inr (snd p)"
          by blast
        ultimately show "built iter_v iter_o (group_of a (fst p) exemplars) (snd p)"
          by (rule less.hyps)
      qed
      with 3 False s(1,2) fs show ?thesis unfolding t by (rule built_split)
    qed
  qed
qed

subsection \<open>Exemplars with the same attribute names\<close>

definition wf_exemplars :: "'k set \<Rightarrow> ('k, 'v, 'o) exemplar list \<Rightarrow> bool" where
  "wf_exemplars K exemplars \<longleftrightarrow>
     (\<forall>x \<in> set exemplars. distinct (keys (fst x)) \<and> set (keys (fst x)) = K)"

lemma wf_exemplars_intro:
  assumes "dicts_wf exemplars" and "same_attribute_names exemplars"
  shows "wf_exemplars (set (keys (fst (hd exemplars)))) exemplars"
proof (cases exemplars)
  case Nil
  then show ?thesis by (simp add: wf_exemplars_def)
next
  case (Cons x xs)
  show ?thesis unfolding wf_exemplars_def
  proof (intro ballI conjI)
    fix y assume y: "y \<in> set exemplars"
    with assms(1) show "distinct (keys (fst y))" by (simp add: dicts_wf_def)
    have "hd exemplars \<in> set exemplars" using Cons by simp
    with assms(2) y show "set (keys (fst y)) = set (keys (fst (hd exemplars)))"
      unfolding same_attribute_names_def by blast
  qed
qed

lemma map_of_keys: "(map_of d k \<noteq> None) = (k \<in> set (keys d))"
  using map_of_eq_None_iff [of d k] by (auto simp: keys_def)

lemma wf_has_attr: "wf_exemplars K exemplars \<Longrightarrow> a \<in> K \<Longrightarrow> has_attr a exemplars"
  unfolding wf_exemplars_def has_attr_def map_of_keys by simp

lemma keys_delete: "keys (AList.delete a d) = removeAll a (keys d)"
  by (simp add: keys_def delete_keys)

lemma wf_group: "wf_exemplars K exemplars \<Longrightarrow> wf_exemplars (K - {a}) (group_of a v exemplars)"
  unfolding wf_exemplars_def
proof (intro ballI conjI)
  fix y
  assume wf: "\<forall>x \<in> set exemplars. distinct (keys (fst x)) \<and> set (keys (fst x)) = K"
    and "y \<in> set (group_of a v exemplars)"
  then obtain x where x: "x \<in> set exemplars" and y: "fst y = AList.delete a (fst x)"
    by (auto simp: group_of_def)
  from wf x have d: "distinct (keys (fst x))" and k: "set (keys (fst x)) = K" by simp_all
  from d show "distinct (keys (fst y))" by (simp add: y keys_delete distinct_removeAll)
  from k show "set (keys (fst y)) = K - {a}" by (simp add: y keys_delete)
qed

lemma group_nonempty:
  "v \<in> set (attr_vals a exemplars) \<Longrightarrow> has_attr a exemplars \<Longrightarrow> group_of a v exemplars \<noteq> []"
proof -
  assume "v \<in> set (attr_vals a exemplars)" and h: "has_attr a exemplars"
  then obtain x where x: "x \<in> set exemplars" and v: "v = the (map_of (fst x) a)"
    by (auto simp: attr_vals_def)
  from h x have "map_of (fst x) a \<noteq> None" by (simp add: has_attr_def)
  with v have "map_of (fst x) a = Some v" by auto
  with x have "filter (\<lambda>x. map_of (fst x) a = Some v) exemplars \<noteq> []"
    by (auto simp: filter_empty_conv)
  then show ?thesis by (simp add: group_of_def)
qed

lemma find_best_attr_total:
  assumes "set_order iter_v"
  shows "(\<forall>x \<in> set attrs. has_attr x exemplars) \<Longrightarrow>
     \<exists>b. find_best_attr fl iter_v iter_o exemplars attrs best = Inr b
        \<and> (b = None \<longrightarrow> best = None \<and> attrs = [])"
proof (induction attrs arbitrary: best)
  case Nil
  then show ?case by simp
next
  case (Cons x xs)
  then have "has_attr x exemplars" by simp
  then have "\<exists>b1. consider_attr fl iter_v iter_o exemplars x best = Inr b1 \<and> b1 \<noteq> None"
    by (cases best) (auto simp: consider_attr_def make_partitions_eq [OF assms] Let_def)
  then obtain b1 where c: "consider_attr fl iter_v iter_o exemplars x best = Inr b1" and "b1 \<noteq> None"
    by blast
  moreover from Cons.prems have "\<forall>x \<in> set xs. has_attr x exemplars" by simp
  from Cons.IH [OF this, of b1] obtain b where "find_best_attr fl iter_v iter_o exemplars xs b1 = Inr b"
    and "b = None \<longrightarrow> b1 = None \<and> xs = []"
    by blast
  ultimately show ?case by (cases b) auto
qed

lemma wf_empty_keys_same: "wf_exemplars {} exemplars \<Longrightarrow> inputs_all_same exemplars"
  by (simp add: wf_exemplars_def inputs_all_same_def list_all_iff dict_eq_def keys_def
        case_prod_unfold)

lemma wf_hd_keys: "wf_exemplars K exemplars \<Longrightarrow> exemplars \<noteq> [] \<Longrightarrow> set (keys (fst (hd exemplars))) = K"
  by (cases exemplars) (auto simp: wf_exemplars_def)

lemma id3_helper_succeeds:
  assumes "set_order iter_v"
  shows "wf_exemplars K exemplars \<Longrightarrow> \<exists>t. id3_helper fl iter_v iter_o exemplars = Inr t"
proof (induction "arity exemplars" arbitrary: exemplars K rule: less_induct)
  case less
  show ?case
  proof (cases exemplars rule: card_outputs_cases)
    case 1
    then show ?thesis by (simp add: id3_helper_leaf_cases)
  next
    case 2
    then show ?thesis by (simp add: id3_helper_leaf_cases)
  next
    case 3
    show ?thesis
    proof (cases "inputs_all_same exemplars")
      case True
      with 3 show ?thesis by (simp add: id3_helper_leaf_cases)
    next
      case False
      from 3 have ne: "exemplars \<noteq> []" by auto
      have hk: "set (keys (fst (hd exemplars))) = K" using less.prems ne by (rule wf_hd_keys)
      have "K \<noteq> {}"
      proof
        assume "K = {}"
        with less.prems have "inputs_all_same exemplars" by (simp add: wf_empty_keys_same)
        with False show False by simp
      qed
      with hk have kne: "keys (fst (hd exemplars)) \<noteq> []" by auto
      have "\<forall>x \<in> set (keys (fst (hd exemplars))). has_attr x exemplars"
        using hk less.prems by (auto intro: wf_has_attr)
      from find_best_attr_total [OF assms this, of fl iter_o None] kne obtain b where
        fb: "find_best_attr fl iter_v iter_o exemplars (keys (fst (hd exemplars))) None = Inr b"
        and "b \<noteq> None"
        by blast
      then obtain y where "b = Some y" by (cases b) auto
      moreover obtain a e ps where "y = (a, e, ps)" by (cases y)
      ultimately have
        f: "find_best_attr fl iter_v iter_o exemplars (keys (fst (hd exemplars))) None = Inr (Some (a, e, ps))"
        using fb by simp
      note s = id3_helper_split_eq [OF assms 3 False f]
      have "\<forall>v \<in> set (iter_v (attr_vals a exemplars)).
              \<exists>sub. id3_helper fl iter_v iter_o (group_of a v exemplars) = Inr sub"
      proof
        fix v assume "v \<in> set (iter_v (attr_vals a exemplars))"
        then have "arity (group_of a v exemplars) < arity exemplars"
          by (rule group_arity [OF assms s(2) ne s(1)])
        moreover have "wf_exemplars (K - {a}) (group_of a v exemplars)"
          using less.prems by (rule wf_group)
        ultimately show "\<exists>sub. id3_helper fl iter_v iter_o (group_of a v exemplars) = Inr sub"
          by (rule less.hyps)
      qed
      from collect_pairs_total [OF this] obtain pairs where
        "collect (map (\<lambda>v. case id3_helper fl iter_v iter_o (group_of a v exemplars) of
                             Inl e \<Rightarrow> Inl e | Inr sub \<Rightarrow> Inr (v, sub))
                      (iter_v (attr_vals a exemplars))) = Inr pairs"
        by blast
      with s(4) show ?thesis by simp
    qed
  qed
qed

lemma built_depth:
  "built iter_v iter_o exemplars t \<Longrightarrow> wf_exemplars K exemplars \<Longrightarrow> finite K \<Longrightarrow> depth t \<le> card K"
proof (induction arbitrary: K rule: built.induct)
  case (built_split exemplars a pairs)
  from built_split.hyps(1) have ne: "exemplars \<noteq> []" by auto
  from wf_hd_keys [OF built_split.prems(1) ne] built_split.hyps(3) have aK: "a \<in> K" by simp
  have "\<And>x. x \<in> set (map (\<lambda>(v, sub). depth sub) pairs) \<Longrightarrow> x \<le> card K - 1"
  proof -
    fix x assume "x \<in> set (map (\<lambda>(v, sub). depth sub) pairs)"
    then obtain p where p: "p \<in> set pairs" and x: "x = depth (snd p)" by (auto simp: case_prod_unfold)
    have "wf_exemplars (K - {a}) (group_of a (fst p) exemplars)"
      using built_split.prems(1) by (rule wf_group)
    moreover have "finite (K - {a})" using built_split.prems(2) by simp
    ultimately have "depth (snd p) \<le> card (K - {a})" using built_split.IH p by blast
    with aK built_split.prems(2) x show "x \<le> card K - 1" by simp
  qed
  then have "foldr max (map (\<lambda>(v, sub). depth sub) pairs) 0 \<le> card K - 1"
    by (rule foldr_max_bound)
  moreover from aK built_split.prems(2) have "0 < card K" by (auto simp: card_gt_0_iff)
  ultimately show ?case by simp
qed simp_all

lemma wf_names_union:
  "wf_exemplars K exemplars \<Longrightarrow> exemplars \<noteq> [] \<Longrightarrow> (\<Union>x \<in> set exemplars. set (keys (fst x))) = K"
  by (cases exemplars) (auto simp: wf_exemplars_def)

lemma wf_exemplars_dest:
  "wf_exemplars K exemplars \<Longrightarrow> dicts_wf exemplars \<and> same_attribute_names exemplars"
  by (simp add: wf_exemplars_def dicts_wf_def same_attribute_names_def)

subsection \<open>Replaying the exemplars\<close>

lemma map_of_distinct_mem: "distinct (keys d) \<Longrightarrow> (k, v) \<in> set d \<Longrightarrow> map_of d k = Some v"
  by (simp add: keys_def)

lemma dict_eq_iff_map_of:
  assumes "distinct (keys d0)" and "distinct (keys d1)" and "set (keys d0) = set (keys d1)"
  shows "dict_eq d0 d1 \<longleftrightarrow> map_of d0 = map_of d1"
proof
  assume eq: "dict_eq d0 d1"
  show "map_of d0 = map_of d1"
  proof
    fix k
    show "map_of d0 k = map_of d1 k"
    proof (cases "map_of d0 k")
      case None
      then have "k \<notin> set (keys d0)" using map_of_keys [of d0 k] by simp
      with assms(3) have "k \<notin> set (keys d1)" by simp
      then have "map_of d1 k = None" using map_of_keys [of d1 k] by simp
      with None show ?thesis by simp
    next
      case (Some v)
      then have "(k, v) \<in> set d0" by (rule map_of_SomeD)
      with eq have "map_of d1 k = Some v" by (auto simp: dict_eq_def list_all_iff)
      with Some show ?thesis by simp
    qed
  qed
next
  assume eq: "map_of d0 = map_of d1"
  have "length (keys d0) = length (keys d1)"
    using assms by (metis distinct_card)
  then have "length d0 = length d1" by (simp add: keys_def)
  moreover have "\<forall>x \<in> set d0. map_of d1 (fst x) = Some (snd x)"
  proof
    fix x assume "x \<in> set d0"
    then have "(fst x, snd x) \<in> set d0" by simp
    with assms(1) have "map_of d0 (fst x) = Some (snd x)" by (rule map_of_distinct_mem)
    with eq show "map_of d1 (fst x) = Some (snd x)" by simp
  qed
  ultimately show "dict_eq d0 d1" by (simp add: dict_eq_def list_all_iff case_prod_unfold)
qed

lemma consistent_group:
  assumes "wf_exemplars K exemplars" and "consistent exemplars"
  shows "consistent (group_of a v exemplars)"
  unfolding consistent_def
proof (intro ballI impI)
  fix x' y'
  assume "x' \<in> set (group_of a v exemplars)" and "y' \<in> set (group_of a v exemplars)"
    and eq: "dict_eq (fst x') (fst y')"
  then obtain x y where
    x: "x \<in> set exemplars" "map_of (fst x) a = Some v" "x' = (AList.delete a (fst x), snd x)" and
    y: "y \<in> set exemplars" "map_of (fst y) a = Some v" "y' = (AList.delete a (fst y), snd y)"
    by (auto simp: group_of_def)
  from assms(1) x(1) y(1) have
    dx: "distinct (keys (fst x))" and dy: "distinct (keys (fst y))" and
    kx: "set (keys (fst x)) = K" and ky: "set (keys (fst y)) = K"
    by (simp_all add: wf_exemplars_def)
  have "dict_eq (AList.delete a (fst x)) (AList.delete a (fst y))" using eq x(3) y(3) by simp
  then have "map_of (AList.delete a (fst x)) = map_of (AList.delete a (fst y))"
    using dx dy kx ky
    by (subst (asm) dict_eq_iff_map_of) (simp_all add: keys_delete distinct_removeAll)
  then have m: "(map_of (fst x))(a := None) = (map_of (fst y))(a := None)"
    by (simp add: delete_conv')
  have "map_of (fst x) = map_of (fst y)"
  proof
    fix k
    show "map_of (fst x) k = map_of (fst y) k"
    proof (cases "k = a")
      case True
      with x(2) y(2) show ?thesis by simp
    next
      case False
      with m show ?thesis by (metis fun_upd_other)
    qed
  qed
  then have "dict_eq (fst x) (fst y)" using dx dy kx ky by (subst dict_eq_iff_map_of) simp_all
  with assms(2) x(1) y(1) have "snd x = snd y" unfolding consistent_def by blast
  then show "snd x' = snd y'" by (simp add: x(3) y(3))
qed

lemma inputs_all_same_iff:
  "inputs_all_same exemplars \<longleftrightarrow> (\<forall>x \<in> set exemplars. \<forall>y \<in> set exemplars. dict_eq (fst x) (fst y))"
  by (simp add: inputs_all_same_def list_all_iff case_prod_unfold)

lemma get_subnode_mem:
  "v \<in> fst ` set pairs \<Longrightarrow> \<exists>p \<in> set pairs. fst p = v \<and> get_subnode_for_input pairs v = snd p"
proof (induction pairs)
  case Nil
  then show ?case by simp
next
  case (Cons p pairs)
  obtain w sub where p: "p = (w, sub)" by (cases p)
  show ?case
  proof (cases "v = w")
    case True
    then show ?thesis by (simp add: p)
  next
    case False
    with Cons.prems have "v \<in> fst ` set pairs" by (simp add: p)
    from Cons.IH [OF this] False show ?thesis by (auto simp: p)
  qed
qed

lemma built_traverse:
  assumes "set_order iter_v"
  shows "built iter_v iter_o exemplars t \<Longrightarrow> wf_exemplars K exemplars \<Longrightarrow> consistent exemplars
     \<Longrightarrow> x \<in> set exemplars \<Longrightarrow> (\<forall>k \<in> K. map_of q k = map_of (fst x) k)
     \<Longrightarrow> traverse t q = Inr (snd x)"
proof (induction arbitrary: K x rule: built.induct)
  case (built_empty exemplars)
  then show ?case by simp
next
  case (built_pure exemplars)
  from built_pure.hyps obtain y where y: "set (map snd exemplars) = {y}"
    using card_1_singletonE by blast
  from built_pure.prems(3) have ne: "exemplars \<noteq> []" by auto
  then have "snd (hd exemplars) \<in> set (map snd exemplars)" by (cases exemplars) auto
  moreover from built_pure.prems(3) have "snd x \<in> set (map snd exemplars)" by auto
  ultimately have "snd (hd exemplars) = snd x" using y by simp
  then show ?case by simp
next
  case (built_same exemplars)
  have "\<forall>y \<in> set exemplars. snd y = snd x"
  proof
    fix y assume y: "y \<in> set exemplars"
    with built_same.hyps(2) built_same.prems(3) have "dict_eq (fst y) (fst x)"
      by (simp add: inputs_all_same_iff)
    with built_same.prems(2,3) y show "snd y = snd x" unfolding consistent_def by blast
  qed
  then have "set (map snd exemplars) \<subseteq> {snd x}" by auto
  then have "card (set (map snd exemplars)) \<le> card {snd x}" by (intro card_mono) simp_all
  with built_same.hyps(1) show ?case by simp
next
  case (built_split exemplars a pairs)
  from built_split.hyps(1) have ne: "exemplars \<noteq> []" by auto
  from wf_hd_keys [OF built_split.prems(1) ne] built_split.hyps(3) have aK: "a \<in> K" by simp
  from built_split.hyps(4) built_split.prems(3) obtain v where v: "map_of (fst x) a = Some v"
    by (auto simp: has_attr_def)
  with built_split.prems(4) aK have qv: "map_of q a = Some v" by simp
  from v built_split.prems(3) have "v \<in> set (attr_vals a exemplars)"
    by (force simp: attr_vals_def)
  with assms have "v \<in> set (iter_v (attr_vals a exemplars))" by (simp add: set_order_def)
  with built_split.hyps(5) have "v \<in> fst ` set pairs" by (metis set_map)
  from get_subnode_mem [OF this] obtain p where
    p: "p \<in> set pairs" "fst p = v" "get_subnode_for_input pairs v = snd p"
    by blast
  let ?x' = "(AList.delete a (fst x), snd x)"
  have x': "?x' \<in> set (group_of a (fst p) exemplars)"
    using built_split.prems(3) v p(2) by (auto simp: group_of_def)
  have wg: "wf_exemplars (K - {a}) (group_of a (fst p) exemplars)"
    using built_split.prems(1) by (rule wf_group)
  have cg: "consistent (group_of a (fst p) exemplars)"
    using built_split.prems(1,2) by (rule consistent_group)
  have ag: "\<forall>k \<in> K - {a}. map_of q k = map_of (fst ?x') k"
    using built_split.prems(4) by (simp add: delete_conv')
  from built_split.IH p(1) have
    "\<And>K x. wf_exemplars K (group_of a (fst p) exemplars) \<Longrightarrow> consistent (group_of a (fst p) exemplars)
       \<Longrightarrow> x \<in> set (group_of a (fst p) exemplars) \<Longrightarrow> (\<forall>k \<in> K. map_of q k = map_of (fst x) k)
       \<Longrightarrow> traverse (snd p) q = Inr (snd x)"
    by blast
  from this [OF wg cg x' ag] have "traverse (snd p) q = Inr (snd x)" by simp
  with qv p(3) show ?case by (simp add: getitem_def)
qed

lemma validate_all:
  "(\<forall>x \<in> set exemplars. call t (fst x) = Inr (snd x)) \<Longrightarrow> validate t exemplars = Inr True"
  by (induction exemplars) auto

subsection \<open>Values never seen in training\<close>

lemma get_subnode_not_mem: "v \<notin> fst ` set pairs \<Longrightarrow> get_subnode_for_input pairs v = Leaf PyNone"
  by (induction pairs) auto

lemma built_unseen:
  "built iter_v iter_o exemplars t
     \<Longrightarrow> (\<forall>a \<in> set (visited t q). a \<in> set (keys q))
     \<Longrightarrow> \<not> (\<exists>x \<in> set exemplars. \<forall>a \<in> set (visited t q). map_of (fst x) a = map_of q a)
     \<Longrightarrow> traverse t q = Inr PyNone"
proof (induction rule: built.induct)
  case (built_empty exemplars)
  then show ?case by simp
next
  case (built_pure exemplars)
  from built_pure.hyps have "exemplars \<noteq> []" by auto
  then obtain x where "x \<in> set exemplars" by (cases exemplars) auto
  with built_pure.prems(2) show ?case by (cases x) auto
next
  case (built_same exemplars)
  from built_same.hyps(1) have "exemplars \<noteq> []" by auto
  then obtain x where "x \<in> set exemplars" by (cases exemplars) auto
  with built_same.prems(2) show ?case by (cases x) auto
next
  case (built_split exemplars a pairs)
  from built_split.prems(1) have "a \<in> set (keys q)" by simp
  then obtain v where qv: "map_of q a = Some v" using map_of_keys [of q a] by auto
  then have g: "getitem q a = Inr v" by (simp add: getitem_def)
  show ?case
  proof (cases "v \<in> fst ` set pairs")
    case False
    with g show ?thesis by (simp add: get_subnode_not_mem)
  next
    case True
    from get_subnode_mem [OF True] obtain p where
      p: "p \<in> set pairs" "fst p = v" "get_subnode_for_input pairs v = snd p"
      by blast
    have vis: "visited (ID3DecisionTreeNode a pairs) q = a # visited (snd p) q"
      using g p(3) by simp
    have k: "\<forall>b \<in> set (visited (snd p) q). b \<in> set (keys q)"
      using built_split.prems(1) unfolding vis by simp
    have no: "\<not> (\<exists>x' \<in> set (group_of a (fst p) exemplars).
                 \<forall>b \<in> set (visited (snd p) q). map_of (fst x') b = map_of q b)"
    proof
      assume "\<exists>x' \<in> set (group_of a (fst p) exemplars).
                 \<forall>b \<in> set (visited (snd p) q). map_of (fst x') b = map_of q b"
      then obtain x where x: "x \<in> set exemplars" "map_of (fst x) a = Some v"
        and agree: "\<forall>b \<in> set (visited (snd p) q). map_of (AList.delete a (fst x)) b = map_of q b"
        using p(2) by (auto simp: group_of_def)
      have "\<forall>b \<in> set (visited (ID3DecisionTreeNode a pairs) q). map_of (fst x) b = map_of q b"
        unfolding vis
      proof
        fix b assume b: "b \<in> set (a # visited (snd p) q)"
        show "map_of (fst x) b = map_of q b"
        proof (cases "b = a")
          case True
          with x(2) qv show ?thesis by simp
        next
          case False
          with b have "b \<in> set (visited (snd p) q)" by simp
          with agree have "map_of (AList.delete a (fst x)) b = map_of q b" by blast
          with False show ?thesis by (simp add: delete_conv')
        qed
      qed
      with x(1) built_split.prems(2) show False by blast
    qed
    from built_split.IH p(1) have
      "(\<forall>b \<in> set (visited (snd p) q). b \<in> set (keys q))
        \<Longrightarrow> \<not> (\<exists>x' \<in> set (group_of a (fst p) exemplars).
                 \<forall>b \<in> set (visited (snd p) q). map_of (fst x') b = map_of q b)
        \<Longrightarrow> traverse (snd p) q = Inr PyNone"
      by blast
    from this [OF k no] g p(3) show ?thesis by simp
  qed
qed

lemma id3_one_attribute:
  assumes "o1 \<noteq> o2" and "v1 \<noteq> v2"
  shows "id3 exact_arith remdups remdups [([(a, v1)], o1), ([(a, v2)], o2)]
       = Inr (ID3DecisionTree (ID3DecisionTreeNode a [(v1, Leaf o1), (v2, Leaf o2)]))"
proof -
  let ?ex = "[([(a, v1)], o1), ([(a, v2)], o2)]"
  have c: "1 < card (set (map snd ?ex))" using assms(1) by simp
  have n: "\<not> inputs_all_same ?ex" using assms(2) by (simp add: inputs_all_same_def dict_eq_def)
  have f: "find_best_attr exact_arith remdups remdups ?ex (keys (fst (hd ?ex))) None
         = Inr (Some (a, 0, [(v1, [([], o1)]), (v2, [([], o2)])]))"
    using assms(2)
    by (simp add: keys_def consider_attr_def make_partitions_def attr_values_of_def getitem_def
        pop_def attr_entropy_of_def group_entropy_def entropy_term_def AList.delete_eq)
  have "id3_helper exact_arith remdups remdups ?ex
      = Inr (ID3DecisionTreeNode a [(v1, Leaf o1), (v2, Leaf o2)])"
    using assms(2)
    by (subst id3_helper_split_eq(4) [OF set_order_remdups c n f])
       (simp add: attr_vals_def group_of_def id3_helper_leaf_cases(2))
  then show ?thesis by (simp add: id3_def)
qed

subsection \<open>The assignments that give an output\<close>

declare get_inputs.simps [simp del]

text \<open>
  The assignments that lead to a leaf equal to \<open>output\<close>, in the order of the pairs, each
  assignment being \<open>input\<close> updated with the values of the path.
\<close>

fun paths :: "('k, 'v, 'o) node \<Rightarrow> 'o pyval \<Rightarrow> ('k, 'v) dict \<Rightarrow> ('k, 'v) dict list" where
  "paths (Leaf x) output input = (if x = output then [input] else [])"
| "paths (ID3DecisionTreeNode a pairs) output input =
     concat (map (\<lambda>p. paths (snd p) output (setitem a (fst p) input)) pairs)"

fun names :: "('k, 'v, 'o) node \<Rightarrow> 'k set" where
  "names (Leaf x) = {}"
| "names (ID3DecisionTreeNode a pairs) = insert a (\<Union>p \<in> set pairs. names (snd p))"

fun wf_tree :: "('k, 'v, 'o) node \<Rightarrow> bool" where
  "wf_tree (Leaf x) = True"
| "wf_tree (ID3DecisionTreeNode a pairs) =
     (distinct (map fst pairs) \<and> (\<forall>p \<in> set pairs. a \<notin> names (snd p) \<and> wf_tree (snd p)))"

lemma get_inputs_fold:
  assumes IH: "\<And>v b subpairs inp acc. (v, ID3DecisionTreeNode b subpairs) \<in> set ps
      \<Longrightarrow> get_inputs b subpairs output inp acc = acc @ paths (ID3DecisionTreeNode b subpairs) output inp"
    and inv: "\<And>v. setitem a v inp = setitem a v input0"
  shows "snd (fold (\<lambda>(value, subnode) (input, inputs).
                  let input = setitem a value input
                  in case subnode of
                       ID3DecisionTreeNode b subpairs \<Rightarrow>
                         (input, get_inputs b subpairs output input inputs)
                     | Leaf x \<Rightarrow>
                         if x = output then (input, inputs @ [input]) else (input, inputs))
               ps (inp, acc))
       = acc @ concat (map (\<lambda>p. paths (snd p) output (setitem a (fst p) input0)) ps)"
  using assms
proof (induction ps arbitrary: inp acc)
  case Nil
  then show ?case by simp
next
  case (Cons p ps)
  obtain v sub where p: "p = (v, sub)" by (cases p)
  have inv': "\<And>w. setitem a w (setitem a v inp) = setitem a w input0"
    using Cons.prems(2) by (simp add: setitem_def update_last)
  have rest: "\<And>acc'. snd (fold (\<lambda>(value, subnode) (input, inputs).
                  let input = setitem a value input
                  in case subnode of
                       ID3DecisionTreeNode b subpairs \<Rightarrow>
                         (input, get_inputs b subpairs output input inputs)
                     | Leaf x \<Rightarrow>
                         if x = output then (input, inputs @ [input]) else (input, inputs))
               ps (setitem a v inp, acc'))
       = acc' @ concat (map (\<lambda>p. paths (snd p) output (setitem a (fst p) input0)) ps)"
  proof (rule Cons.IH)
    fix w b subpairs inp' acc''
    assume "(w, ID3DecisionTreeNode b subpairs) \<in> set ps"
    then have "(w, ID3DecisionTreeNode b subpairs) \<in> set (p # ps)" by simp
    then show "get_inputs b subpairs output inp' acc''
        = acc'' @ paths (ID3DecisionTreeNode b subpairs) output inp'"
      by (rule Cons.prems(1))
  next
    fix w show "setitem a w (setitem a v inp) = setitem a w input0" by (rule inv')
  qed
  show ?case
  proof (cases sub)
    case (Leaf x)
    then show ?thesis using rest Cons.prems(2) by (simp add: p Let_def)
  next
    case (ID3DecisionTreeNode b subpairs)
    have "get_inputs b subpairs output (setitem a v inp) acc
        = acc @ paths (ID3DecisionTreeNode b subpairs) output (setitem a v inp)"
      by (rule Cons.prems(1) [of v]) (simp add: p ID3DecisionTreeNode)
    then show ?thesis using rest Cons.prems(2) by (simp add: p ID3DecisionTreeNode Let_def)
  qed
qed

lemma get_inputs_paths_aux:
  "t = ID3DecisionTreeNode a pairs
     \<Longrightarrow> get_inputs a pairs output input inputs = inputs @ paths t output input"
proof (induction t arbitrary: a pairs input inputs)
  case (Leaf x)
  then show ?case by simp
next
  case (ID3DecisionTreeNode a' pairs')
  from ID3DecisionTreeNode.prems have eq: "a' = a" "pairs' = pairs" by simp_all
  have IH: "\<And>v b subpairs inp acc. (v, ID3DecisionTreeNode b subpairs) \<in> set pairs
      \<Longrightarrow> get_inputs b subpairs output inp acc = acc @ paths (ID3DecisionTreeNode b subpairs) output inp"
  proof -
    fix v b subpairs inp acc
    assume m: "(v, ID3DecisionTreeNode b subpairs) \<in> set pairs"
    show "get_inputs b subpairs output inp acc = acc @ paths (ID3DecisionTreeNode b subpairs) output inp"
      by (rule ID3DecisionTreeNode.IH [of "(v, ID3DecisionTreeNode b subpairs)"])
         (use m eq in simp_all)
  qed
  show ?case
    unfolding eq
    by (subst get_inputs.simps, subst get_inputs_fold [where ?input0.0 = input, OF IH])
       simp_all
qed

lemma get_inputs_paths:
  "get_inputs a pairs output input inputs = inputs @ paths (ID3DecisionTreeNode a pairs) output input"
  by (rule get_inputs_paths_aux) simp

lemma get_subnode_distinct:
  "distinct (map fst pairs) \<Longrightarrow> p \<in> set pairs \<Longrightarrow> get_subnode_for_input pairs (fst p) = snd p"
proof (induction pairs)
  case Nil
  then show ?case by simp
next
  case (Cons r pairs)
  obtain w sub where r: "r = (w, sub)" by (cases r)
  show ?case
  proof (cases "p = r")
    case True
    then show ?thesis by (simp add: r)
  next
    case False
    with Cons.prems have m: "p \<in> set pairs" by simp
    with Cons.prems(1) have "fst p \<noteq> w" by (auto simp: r)
    with Cons.IH m Cons.prems(1) show ?thesis by (simp add: r)
  qed
qed

lemma paths_traverse:
  "wf_tree t \<Longrightarrow> d \<in> set (paths t output input)
     \<Longrightarrow> (\<forall>k. k \<notin> names t \<longrightarrow> map_of d k = map_of input k)
       \<and> (\<forall>b. map_of d \<subseteq>\<^sub>m map_of b \<longrightarrow> traverse t b = Inr output)"
proof (induction t arbitrary: input)
  case (Leaf x)
  then show ?case by (auto split: if_splits)
next
  case (ID3DecisionTreeNode a pairs)
  from ID3DecisionTreeNode.prems(2) obtain p where
    p: "p \<in> set pairs" "d \<in> set (paths (snd p) output (setitem a (fst p) input))"
    by auto
  from ID3DecisionTreeNode.prems(1) p(1) have
    w: "distinct (map fst pairs)" "a \<notin> names (snd p)" "wf_tree (snd p)"
    by auto
  have "(\<forall>k. k \<notin> names (snd p) \<longrightarrow> map_of d k = map_of (setitem a (fst p) input) k)
       \<and> (\<forall>b. map_of d \<subseteq>\<^sub>m map_of b \<longrightarrow> traverse (snd p) b = Inr output)"
    by (rule ID3DecisionTreeNode.IH [of p "snd p"]) (use p w in \<open>auto simp: snds.simps\<close>)
  then have agree: "\<And>k. k \<notin> names (snd p) \<Longrightarrow> map_of d k = map_of (setitem a (fst p) input) k"
    and tr: "\<And>b. map_of d \<subseteq>\<^sub>m map_of b \<Longrightarrow> traverse (snd p) b = Inr output"
    by blast+
  have da: "map_of d a = Some (fst p)"
    using agree [OF w(2)] by (simp add: setitem_def update_conv')
  have one: "\<forall>k. k \<notin> names (ID3DecisionTreeNode a pairs) \<longrightarrow> map_of d k = map_of input k"
  proof (intro allI impI)
    fix k assume k: "k \<notin> names (ID3DecisionTreeNode a pairs)"
    with p(1) have "k \<noteq> a" "k \<notin> names (snd p)" by auto
    with agree [of k] show "map_of d k = map_of input k"
      by (simp add: setitem_def update_conv')
  qed
  have two: "\<forall>b. map_of d \<subseteq>\<^sub>m map_of b \<longrightarrow> traverse (ID3DecisionTreeNode a pairs) b = Inr output"
  proof (intro allI impI)
    fix b assume le: "map_of d \<subseteq>\<^sub>m map_of b"
    with da have "map_of b a = Some (fst p)" by (auto simp: map_le_def dom_def)
    then have "getitem b a = Inr (fst p)" by (simp add: getitem_def)
    with get_subnode_distinct [OF w(1) p(1)] tr [OF le] show
      "traverse (ID3DecisionTreeNode a pairs) b = Inr output"
      by simp
  qed
  from one two show ?case by blast
qed

lemma group_of_keys:
  "x \<in> set (group_of a v exemplars)
     \<Longrightarrow> set (keys (fst x)) \<subseteq> (\<Union>y \<in> set exemplars. set (keys (fst y))) - {a}"
  by (auto simp: group_of_def keys_delete)

lemma built_wf_tree:
  "built iter_v iter_o exemplars t \<Longrightarrow> set_order iter_v
     \<Longrightarrow> wf_tree t \<and> names t \<subseteq> (\<Union>x \<in> set exemplars. set (keys (fst x)))"
proof (induction rule: built.induct)
  case (built_empty exemplars)
  then show ?case by simp
next
  case (built_pure exemplars)
  then show ?case by simp
next
  case (built_same exemplars)
  then show ?case by simp
next
  case (built_split exemplars a pairs)
  from built_split.hyps(1) have "exemplars \<noteq> []" by auto
  then have hd: "hd exemplars \<in> set exemplars" by simp
  with built_split.hyps(3) have a: "a \<in> (\<Union>x \<in> set exemplars. set (keys (fst x)))" by blast
  from built_split.prems built_split.hyps(5) have d: "distinct (map fst pairs)"
    by (simp add: set_order_def)
  have sub: "\<And>p. p \<in> set pairs \<Longrightarrow> wf_tree (snd p)
      \<and> names (snd p) \<subseteq> (\<Union>x \<in> set exemplars. set (keys (fst x))) - {a}"
  proof -
    fix p assume p: "p \<in> set pairs"
    with built_split.IH built_split.prems have
      i: "wf_tree (snd p)"
         "names (snd p) \<subseteq> (\<Union>x \<in> set (group_of a (fst p) exemplars). set (keys (fst x)))"
      by blast+
    have "(\<Union>x \<in> set (group_of a (fst p) exemplars). set (keys (fst x)))
        \<subseteq> (\<Union>x \<in> set exemplars. set (keys (fst x))) - {a}"
      using group_of_keys [of _ a "fst p" exemplars] by blast
    with i show "wf_tree (snd p)
      \<and> names (snd p) \<subseteq> (\<Union>x \<in> set exemplars. set (keys (fst x))) - {a}"
      by blast
  qed
  have "wf_tree (ID3DecisionTreeNode a pairs)" using d sub by auto
  moreover have "names (ID3DecisionTreeNode a pairs) \<subseteq> (\<Union>x \<in> set exemplars. set (keys (fst x)))"
    using a sub by auto
  ultimately show ?case by blast
qed

subsection \<open>Objects that a call leaves as they are\<close>

lemma extends_refl: "extends s s"
  by (simp add: extends_def)

lemma extends_trans: "extends s s1 \<Longrightarrow> extends s1 s2 \<Longrightarrow> extends s s2"
  unfolding extends_def by (meson prefix_order.trans)

lemma prefix_update: "prefix xs ys \<Longrightarrow> length xs \<le> i \<Longrightarrow> prefix xs (ys[i := v])"
  by (auto simp: prefix_def list_update_append)

lemma extends_new_dict: "extends s0 s \<Longrightarrow> extends s0 (snd (new_dict d s))"
  by (simp add: extends_def new_dict_def prefix_prefix)

lemma extends_new_list: "extends s0 s \<Longrightarrow> extends s0 (snd (new_list s))"
  by (simp add: extends_def new_list_def prefix_prefix)

lemma extends_set_dict:
  "extends s0 s \<Longrightarrow> length (dict_objs s0) \<le> a \<Longrightarrow> extends s0 (set_dict a d s)"
  by (simp add: extends_def set_dict_def prefix_update)

lemma extends_list_append:
  "extends s0 s \<Longrightarrow> length (list_objs s0) \<le> l \<Longrightarrow> extends s0 (list_append l x s)"
  by (simp add: extends_def list_append_def prefix_update)

lemma new_partitions_eq:
  "new_partitions vs s =
     (zip vs [length (list_objs s) ..< length (list_objs s) + length vs],
      s\<lparr>list_objs := list_objs s @ replicate (length vs) []\<rparr>)"
proof (induction vs arbitrary: s)
  case Nil
  then show ?case by simp
next
  case (Cons v vs)
  have u: "[length (list_objs s) ..< Suc (length (list_objs s) + length vs)]
      = length (list_objs s) # [Suc (length (list_objs s)) ..< Suc (length (list_objs s) + length vs)]"
    by (subst upt_rec) simp
  show ?case
    by (simp add: Cons.IH new_list_def u del: upt_Suc)
qed

lemma partition_exemplars_h_extends:
  "partition_exemplars_h attr items partitions s = (r, s') \<Longrightarrow> extends s0 s
     \<Longrightarrow> \<forall>l \<in> snd ` set partitions. length (list_objs s0) \<le> l \<Longrightarrow> extends s0 s'"
proof (induction items arbitrary: s)
  case Nil
  then show ?case by simp
next
  case (Cons item items)
  obtain inputs outp where item: "item = (inputs, outp)" by (cases item)
  let ?a = "length (dict_objs s)"
  let ?s1 = "snd (new_dict (dict_objs s ! inputs) s)"
  have e1: "extends s0 ?s1" using Cons.prems(2) by (rule extends_new_dict)
  from Cons.prems(2) have a: "length (dict_objs s0) \<le> ?a"
    by (simp add: extends_def prefix_length_le)
  show ?case
  proof (cases "pop attr (dict_objs ?s1 ! ?a)")
    case (Inl e)
    with Cons.prems(1) e1 show ?thesis by (simp add: item new_dict_def)
  next
    case (Inr vd)
    obtain v d where vd: "vd = (v, d)" by (cases vd)
    let ?s2 = "set_dict ?a d ?s1"
    have e2: "extends s0 ?s2" using e1 a by (rule extends_set_dict)
    show ?thesis
    proof (cases "map_of partitions v")
      case None
      with Cons.prems(1) Inr e2 show ?thesis by (simp add: item new_dict_def vd)
    next
      case (Some l)
      then have "l \<in> snd ` set partitions" by (force dest: map_of_SomeD)
      with Cons.prems(3) have "length (list_objs s0) \<le> l" by blast
      with e2 have e3: "extends s0 (list_append l (?a, outp) ?s2)" by (rule extends_list_append)
      from Cons.prems(1) Inr Some have
        "partition_exemplars_h attr items partitions (list_append l (?a, outp) ?s2) = (r, s')"
        by (simp add: item new_dict_def vd)
      from Cons.IH [OF this e3 Cons.prems(3)] show ?thesis .
    qed
  qed
qed

lemma make_partitions_h_extends:
  assumes "make_partitions_h iter_v attr ex s = (r, s')"
  shows "extends s s'"
proof (cases "attr_values_of iter_v attr (exemplars_at s ex)")
  case (Inl e)
  with assms show ?thesis by (simp add: make_partitions_h_def extends_refl)
next
  case (Inr vs)
  let ?P = "zip vs [length (list_objs s) ..< length (list_objs s) + length vs]"
  let ?s1 = "s\<lparr>list_objs := list_objs s @ replicate (length vs) []\<rparr>"
  obtain r2 s2 where p: "partition_exemplars_h attr (list_objs s ! ex) ?P ?s1 = (r2, s2)"
    by (cases "partition_exemplars_h attr (list_objs s ! ex) ?P ?s1")
  have e1: "extends s ?s1" by (simp add: extends_def)
  have "\<forall>l \<in> snd ` set ?P. length (list_objs s) \<le> l"
    by (auto dest: set_zip_rightD)
  with p e1 have "extends s s2" by (rule partition_exemplars_h_extends)
  moreover from assms Inr p have "s' = s2"
    by (cases r2) (simp_all add: make_partitions_h_def new_partitions_eq)
  ultimately show ?thesis by simp
qed

lemma consider_attr_h_extends:
  assumes "consider_attr_h fl iter_v iter_o ex attr best s = (r, s')"
  shows "extends s s'"
proof -
  obtain r1 s1 where m: "make_partitions_h iter_v attr ex s = (r1, s1)"
    by (cases "make_partitions_h iter_v attr ex s")
  from m have "extends s s1" by (rule make_partitions_h_extends)
  moreover from assms m have "s' = s1"
    by (cases r1) (auto simp: consider_attr_h_def Let_def split: option.splits if_splits)
  ultimately show ?thesis by simp
qed

lemma find_best_attr_h_extends:
  "find_best_attr_h fl iter_v iter_o ex attrs best s = (r, s') \<Longrightarrow> extends s s'"
proof (induction attrs arbitrary: best s)
  case Nil
  then show ?case by (simp add: extends_refl)
next
  case (Cons attr attrs)
  obtain r1 s1 where c: "consider_attr_h fl iter_v iter_o ex attr best s = (r1, s1)"
    by (cases "consider_attr_h fl iter_v iter_o ex attr best s")
  from c have e1: "extends s s1" by (rule consider_attr_h_extends)
  show ?case
  proof (cases r1)
    case (Inl e)
    with Cons.prems c e1 show ?thesis by simp
  next
    case (Inr b1)
    with Cons.prems c have "find_best_attr_h fl iter_v iter_o ex attrs b1 s1 = (r, s')" by simp
    from Cons.IH [OF this] e1 show ?thesis by (rule extends_trans [rotated])
  qed
qed

lemma subnodes_h_extends:
  assumes f: "\<And>ex s r s'. f ex s = Some (r, s') \<Longrightarrow> extends s s'"
  shows "subnodes_h f partitions s = Some (r, s') \<Longrightarrow> extends s s'"
proof (induction partitions arbitrary: s r)
  case Nil
  then show ?case by (simp add: extends_refl)
next
  case (Cons p partitions)
  obtain v l where p: "p = (v, l)" by (cases p)
  from Cons.prems obtain r1 s1 where c: "f l s = Some (r1, s1)"
    by (cases "f l s") (auto simp: p)
  from f [OF c] have e1: "extends s s1" .
  show ?case
  proof (cases r1)
    case (Inl e)
    with Cons.prems c e1 show ?thesis by (simp add: p)
  next
    case (Inr sub)
    with Cons.prems c obtain r2 where "subnodes_h f partitions s1 = Some (r2, s')"
      by (auto simp: p split: option.splits sum.splits)
    from Cons.IH [OF this] e1 show ?thesis by (rule extends_trans [rotated])
  qed
qed

lemma id3_helper_h_extends:
  "id3_helper_h n fl iter_v iter_o ex s = Some (r, s') \<Longrightarrow> extends s s'"
proof (induction n arbitrary: ex s r s')
  case 0
  then show ?case by simp
next
  case (Suc n)
  let ?ex = "exemplars_at s ex"
  show ?case
  proof (cases "card (set (map snd ?ex)) = 0 \<or> card (set (map snd ?ex)) = 1 \<or> inputs_all_same ?ex")
    case True
    with Suc.prems have "s' = s" by (auto simp: Let_def split: if_splits)
    then show ?thesis by (simp add: extends_refl)
  next
    case False
    obtain r1 s1 where fb: "find_best_attr_h fl iter_v iter_o ex (keys (fst (hd ?ex))) None s = (r1, s1)"
      by (cases "find_best_attr_h fl iter_v iter_o ex (keys (fst (hd ?ex))) None s")
    from fb have e1: "extends s s1" by (rule find_best_attr_h_extends)
    show ?thesis
    proof (cases r1)
      case (Inl e)
      with Suc.prems False fb e1 show ?thesis by (simp add: Let_def)
    next
      case (Inr b)
      show ?thesis
      proof (cases b)
        case None
        with Suc.prems False fb e1 Inr show ?thesis by (simp add: Let_def)
      next
        case (Some t)
        obtain a e ps where t: "t = (a, e, ps)" by (cases t)
        from Suc.prems False fb Inr Some t obtain r2 where
          sn: "subnodes_h (id3_helper_h n fl iter_v iter_o) ps s1 = Some (r2, s')"
          by (auto simp: Let_def split: option.splits sum.splits)
        have "extends s1 s'"
          using sn by (rule subnodes_h_extends [rotated]) (rule Suc.IH)
        with e1 show ?thesis by (rule extends_trans)
      qed
    qed
  qed
qed


subsection \<open>The store and the exemplars it holds\<close>

lemma prefix_nth: "prefix xs ys \<Longrightarrow> i < length xs \<Longrightarrow> ys ! i = xs ! i"
  by (auto simp: prefix_def nth_append)

lemma extends_valid_list:
  assumes "extends s s'" and "valid_list s ex"
  shows "valid_list s' ex" and "list_objs s' ! ex = list_objs s ! ex"
    and "exemplars_at s' ex = exemplars_at s ex"
    and "\<forall>x \<in> set (list_objs s ! ex). dict_objs s' ! fst x = dict_objs s ! fst x"
proof -
  from assms have l: "list_objs s' ! ex = list_objs s ! ex"
    by (simp add: extends_def valid_list_def prefix_nth)
  from assms have d: "\<forall>x \<in> set (list_objs s ! ex). dict_objs s' ! fst x = dict_objs s ! fst x"
    by (simp add: extends_def valid_list_def prefix_nth)
  from assms have n: "length (list_objs s) \<le> length (list_objs s')"
    "length (dict_objs s) \<le> length (dict_objs s')"
    by (simp_all add: extends_def prefix_length_le)
  from assms(2) n l show "valid_list s' ex" by (fastforce simp: valid_list_def)
  from l show "list_objs s' ! ex = list_objs s ! ex" .
  from d show "\<forall>x \<in> set (list_objs s ! ex). dict_objs s' ! fst x = dict_objs s ! fst x" .
  from l d show "exemplars_at s' ex = exemplars_at s ex"
    by (auto simp: exemplars_at_def)
qed

lemma extends_partitions_at:
  assumes "extends s s'" and "\<forall>l \<in> snd ` set P. valid_list s l"
  shows "partitions_at s' P = partitions_at s P" and "\<forall>l \<in> snd ` set P. valid_list s' l"
proof -
  show "partitions_at s' P = partitions_at s P"
    unfolding partitions_at_def
  proof (rule map_cong [OF refl])
    fix p assume "p \<in> set P"
    with assms(2) have "valid_list s (snd p)" by auto
    from extends_valid_list(3) [OF assms(1) this]
    show "(case p of (attr_value, l) \<Rightarrow> (attr_value, exemplars_at s' l))
        = (case p of (attr_value, l) \<Rightarrow> (attr_value, exemplars_at s l))"
      by (cases p) simp
  qed
  show "\<forall>l \<in> snd ` set P. valid_list s' l"
    using assms extends_valid_list(1) by blast
qed


text \<open>One round of the loop of lines 192-195: a new dict object and one more exemplar in a list.\<close>

lemma exemplars_at_step:
  assumes D: "dict_objs s3 = dict_objs s @ [d]"
    and L: "list_objs s3 = (list_objs s)[l := list_objs s ! l @ [(length (dict_objs s), outp)]]"
    and V: "valid_list s l'"
  shows "exemplars_at s3 l' = (if l' = l then exemplars_at s l' @ [(d, outp)] else exemplars_at s l')"
    and "valid_list s3 l'"
proof -
  from V have r: "l' < length (list_objs s)"
    and a: "\<forall>x \<in> set (list_objs s ! l'). fst x < length (dict_objs s)"
    by (simp_all add: valid_list_def)
  have old: "map (\<lambda>(inputs, output). (dict_objs s3 ! inputs, output)) (list_objs s ! l')
           = map (\<lambda>(inputs, output). (dict_objs s ! inputs, output)) (list_objs s ! l')"
    using a by (auto simp: D nth_append)
  show "exemplars_at s3 l' = (if l' = l then exemplars_at s l' @ [(d, outp)] else exemplars_at s l')"
    using r old by (simp add: exemplars_at_def L D)
  show "valid_list s3 l'"
  proof (cases "l' = l")
    case True
    with r a show ?thesis by (auto simp: valid_list_def L D less_Suc_eq)
  next
    case False
    with r a show ?thesis by (auto simp: valid_list_def L D less_Suc_eq)
  qed
qed

lemma partitions_at_step_other:
  assumes D: "dict_objs s3 = dict_objs s @ [d]"
    and L: "list_objs s3 = (list_objs s)[l := list_objs s ! l @ [(length (dict_objs s), outp)]]"
    and V: "\<forall>l' \<in> snd ` set P. valid_list s l'" and N: "l \<notin> snd ` set P"
  shows "partitions_at s3 P = partitions_at s P"
  unfolding partitions_at_def
proof (rule map_cong [OF refl])
  fix p assume p: "p \<in> set P"
  with V N have "valid_list s (snd p)" "snd p \<noteq> l" by auto
  with exemplars_at_step(1) [OF D L] have "exemplars_at s3 (snd p) = exemplars_at s (snd p)" by simp
  then show "(case p of (attr_value, l) \<Rightarrow> (attr_value, exemplars_at s3 l))
      = (case p of (attr_value, l) \<Rightarrow> (attr_value, exemplars_at s l))"
    by (cases p) simp
qed

lemma append_to_at_None:
  "map_of P v = None \<Longrightarrow> append_to v x (partitions_at s P) = Inl KeyError"
  by (induction P) (auto simp: partitions_at_def)

lemma append_to_at_Some:
  assumes D: "dict_objs s3 = dict_objs s @ [d]"
    and L: "list_objs s3 = (list_objs s)[l := list_objs s ! l @ [(length (dict_objs s), outp)]]"
  shows "map_of P v = Some l \<Longrightarrow> distinct (map snd P) \<Longrightarrow> \<forall>l' \<in> snd ` set P. valid_list s l'
     \<Longrightarrow> append_to v (d, outp) (partitions_at s P) = Inr (partitions_at s3 P)"
proof (induction P)
  case Nil
  then show ?case by simp
next
  case (Cons p P)
  obtain w l0 where p: "p = (w, l0)" by (cases p)
  from Cons.prems(3) have v0: "valid_list s l0" and vP: "\<forall>l' \<in> snd ` set P. valid_list s l'"
    by (simp_all add: p)
  from Cons.prems(2) have n0: "l0 \<notin> snd ` set P" and dP: "distinct (map snd P)"
    by (simp_all add: p)
  show ?case
  proof (cases "w = v")
    case True
    with Cons.prems(1) have l0: "l0 = l" by (simp add: p)
    from exemplars_at_step(1) [OF D L v0] l0 have
      "exemplars_at s3 l0 = exemplars_at s l0 @ [(d, outp)]" by simp
    moreover from n0 l0 have "partitions_at s3 P = partitions_at s P"
      by (intro partitions_at_step_other [OF D L vP]) simp
    ultimately show ?thesis using True by (simp add: partitions_at_def p)
  next
    case False
    with Cons.prems(1) have m: "map_of P v = Some l" by (simp add: p)
    then have "l \<in> snd ` set P" by (force dest: map_of_SomeD)
    with n0 have "l0 \<noteq> l" by auto
    with exemplars_at_step(1) [OF D L v0] have "exemplars_at s3 l0 = exemplars_at s l0" by simp
    with Cons.IH [OF m dP vP] False show ?thesis by (simp add: partitions_at_def p)
  qed
qed

text \<open>
  The loop of lines 192-195 on the store does to the exemplars that the partition lists
  hold what \<open>partition_exemplars\<close> does to the partitions.
\<close>

lemma partition_exemplars_h_refines:
  "distinct (map snd P) \<Longrightarrow> \<forall>l \<in> snd ` set P. valid_list s l
     \<Longrightarrow> \<forall>x \<in> set items. fst x < length (dict_objs s)
     \<Longrightarrow> (case partition_exemplars attr
                 (map (\<lambda>(inputs, output). (dict_objs s ! inputs, output)) items) (partitions_at s P) of
           Inl e \<Rightarrow> fst (partition_exemplars_h attr items P s) = Inl e
         | Inr ps \<Rightarrow>
             (\<exists>s'. partition_exemplars_h attr items P s = (Inr (), s')
                  \<and> partitions_at s' P = ps \<and> (\<forall>l \<in> snd ` set P. valid_list s' l)))"
proof (induction items arbitrary: s)
  case Nil
  then show ?case by simp
next
  case (Cons item items)
  obtain inputs outp where item: "item = (inputs, outp)" by (cases item)
  let ?a = "length (dict_objs s)"
  let ?d0 = "dict_objs s ! inputs"
  show ?case
  proof (cases "pop attr ?d0")
    case (Inl e)
    then show ?thesis by (simp add: item new_dict_def)
  next
    case (Inr vd)
    obtain v d where vd: "vd = (v, d)" by (cases vd)
    show ?thesis
    proof (cases "map_of P v")
      case None
      with Inr show ?thesis by (simp add: item new_dict_def vd append_to_at_None set_dict_def)
    next
      case (Some l)
      let ?s3 = "list_append l (?a, outp) (set_dict ?a d (snd (new_dict ?d0 s)))"
      have D: "dict_objs ?s3 = dict_objs s @ [d]"
        by (simp add: list_append_def set_dict_def new_dict_def)
      have L: "list_objs ?s3 = (list_objs s)[l := list_objs s ! l @ [(?a, outp)]]"
        by (simp add: list_append_def set_dict_def new_dict_def)
      have ap: "append_to v (d, outp) (partitions_at s P) = Inr (partitions_at ?s3 P)"
        using D L Some Cons.prems(1,2) by (rule append_to_at_Some)
      have v3: "\<forall>l \<in> snd ` set P. valid_list ?s3 l"
        using exemplars_at_step(2) [OF D L] Cons.prems(2) by blast
      have i3: "\<forall>x \<in> set items. fst x < length (dict_objs ?s3)"
        using Cons.prems(3) by (simp add: D less_Suc_eq)
      have m3: "map (\<lambda>(inputs, output). (dict_objs ?s3 ! inputs, output)) items
              = map (\<lambda>(inputs, output). (dict_objs s ! inputs, output)) items"
        using Cons.prems(3) by (auto simp: D nth_append)
      have step: "partition_exemplars_h attr (item # items) P s
                = partition_exemplars_h attr items P ?s3"
        using Inr Some by (simp add: item new_dict_def vd)
      have pure: "partition_exemplars attr
                 (map (\<lambda>(inputs, output). (dict_objs s ! inputs, output)) (item # items)) (partitions_at s P)
               = partition_exemplars attr
                 (map (\<lambda>(inputs, output). (dict_objs ?s3 ! inputs, output)) items) (partitions_at ?s3 P)"
        using Inr ap by (simp add: item vd m3)
      from Cons.IH [OF Cons.prems(1) v3 i3] show ?thesis
        unfolding step pure .
    qed
  qed
qed


lemma partitions_at_new:
  "partitions_at (s\<lparr>list_objs := list_objs s @ replicate (length vs) []\<rparr>)
       (zip vs [length (list_objs s) ..< length (list_objs s) + length vs])
     = map (\<lambda>attr_value. (attr_value, [])) vs"
  by (rule nth_equalityI) (simp_all add: partitions_at_def exemplars_at_def nth_append)

lemma make_partitions_h_refines:
  assumes "valid_list s ex"
  shows "case make_partitions iter_v attr (exemplars_at s ex) of
           Inl e \<Rightarrow> fst (make_partitions_h iter_v attr ex s) = Inl e
         | Inr ps \<Rightarrow>
             (\<exists>P s'. make_partitions_h iter_v attr ex s = (Inr P, s')
                  \<and> partitions_at s' P = ps \<and> (\<forall>l \<in> snd ` set P. valid_list s' l))"
proof (cases "attr_values_of iter_v attr (exemplars_at s ex)")
  case (Inl e)
  then show ?thesis by (simp add: make_partitions_def make_partitions_h_def)
next
  case (Inr vs)
  let ?n = "length (list_objs s)"
  let ?P = "zip vs [?n ..< ?n + length vs]"
  let ?s1 = "s\<lparr>list_objs := list_objs s @ replicate (length vs) []\<rparr>"
  let ?items = "list_objs s ! ex"
  have d: "distinct (map snd ?P)" by simp
  have v: "\<forall>l \<in> snd ` set ?P. valid_list ?s1 l"
  proof
    fix l assume "l \<in> snd ` set ?P"
    then have "l \<in> set [?n ..< ?n + length vs]" by (auto dest: set_zip_rightD)
    then have "?n \<le> l" "l < ?n + length vs" by simp_all
    then show "valid_list ?s1 l" by (simp add: valid_list_def nth_append)
  qed
  have i: "\<forall>x \<in> set ?items. fst x < length (dict_objs ?s1)"
    using assms by (simp add: valid_list_def)
  have m: "map (\<lambda>(inputs, output). (dict_objs ?s1 ! inputs, output)) ?items = exemplars_at s ex"
    by (simp add: exemplars_at_def)
  have pure: "make_partitions iter_v attr (exemplars_at s ex)
            = partition_exemplars attr
                (map (\<lambda>(inputs, output). (dict_objs ?s1 ! inputs, output)) ?items) (partitions_at ?s1 ?P)"
    by (simp only: m partitions_at_new) (simp add: make_partitions_def Inr)
  have heap: "make_partitions_h iter_v attr ex s
            = (case partition_exemplars_h attr ?items ?P ?s1 of
                 (Inl e, s2) \<Rightarrow> (Inl e, s2)
               | (Inr u, s2) \<Rightarrow> (Inr ?P, s2))"
    by (simp add: make_partitions_h_def Inr new_partitions_eq)
  from partition_exemplars_h_refines [OF d v i, of attr] show ?thesis
    unfolding pure heap
    by (auto split: sum.splits prod.splits)
qed


text \<open>\<open>best_attr\<close> with its partitions read from the store.\<close>

definition best_at ::
  "('k, 'v, 'o) store \<Rightarrow> ('k \<times> 'f \<times> ('v \<times> nat) list) option \<Rightarrow> ('k, 'v, 'o, 'f) best_attr option" where
  "best_at s best = map_option (\<lambda>(a, e, P). (a, e, partitions_at s P)) best"

definition valid_best :: "('k, 'v, 'o) store \<Rightarrow> ('k \<times> 'f \<times> ('v \<times> nat) list) option \<Rightarrow> bool" where
  "valid_best s best \<longleftrightarrow> (\<forall>a e P. best = Some (a, e, P) \<longrightarrow> (\<forall>l \<in> snd ` set P. valid_list s l))"

lemma valid_best_None: "valid_best s None"
  by (simp add: valid_best_def)

lemma best_at_None: "best_at s None = None"
  by (simp add: best_at_def)

lemma extends_best_at:
  assumes "extends s s'" and "valid_best s best"
  shows "best_at s' best = best_at s best" and "valid_best s' best"
proof -
  show "best_at s' best = best_at s best"
  proof (cases best)
    case None
    then show ?thesis by (simp add: best_at_def)
  next
    case (Some t)
    obtain a e P where t: "t = (a, e, P)" by (cases t)
    with assms(2) Some have "\<forall>l \<in> snd ` set P. valid_list s l" by (simp add: valid_best_def)
    from extends_partitions_at(1) [OF assms(1) this] show ?thesis
      by (simp add: best_at_def Some t)
  qed
  show "valid_best s' best"
    unfolding valid_best_def
  proof (intro allI impI)
    fix a e P assume "best = Some (a, e, P)"
    with assms(2) have "\<forall>l \<in> snd ` set P. valid_list s l" by (simp add: valid_best_def)
    from extends_partitions_at(2) [OF assms(1) this]
    show "\<forall>l \<in> snd ` set P. valid_list s' l" .
  qed
qed

lemma consider_attr_h_refines:
  assumes "valid_list s ex" and "valid_best s best"
  shows "case consider_attr fl iter_v iter_o (exemplars_at s ex) attr (best_at s best) of
           Inl e \<Rightarrow> fst (consider_attr_h fl iter_v iter_o ex attr best s) = Inl e
         | Inr pb \<Rightarrow>
             (\<exists>b' s'. consider_attr_h fl iter_v iter_o ex attr best s = (Inr b', s')
                  \<and> best_at s' b' = pb \<and> valid_best s' b')"
proof (cases "make_partitions iter_v attr (exemplars_at s ex)")
  case (Inl e)
  with make_partitions_h_refines [OF assms(1), of iter_v attr]
  have "fst (make_partitions_h iter_v attr ex s) = Inl e" by simp
  then obtain s1 where "make_partitions_h iter_v attr ex s = (Inl e, s1)"
    by (cases "make_partitions_h iter_v attr ex s") simp
  with Inl show ?thesis by (simp add: consider_attr_def consider_attr_h_def)
next
  case (Inr ps)
  with make_partitions_h_refines [OF assms(1), of iter_v attr] obtain P s1 where
    h: "make_partitions_h iter_v attr ex s = (Inr P, s1)" and
    ps: "partitions_at s1 P = ps" and v: "\<forall>l \<in> snd ` set P. valid_list s1 l"
    by auto
  from h have e: "extends s s1" by (rule make_partitions_h_extends)
  note b = extends_best_at [OF e assms(2)]
  let ?new = "Some (attr, attr_entropy_of fl iter_o ps, P)"
  have vn: "valid_best s1 ?new" using v by (simp add: valid_best_def)
  have an: "best_at s1 ?new = Some (attr, attr_entropy_of fl iter_o ps, ps)"
    by (simp add: best_at_def ps)
  show ?thesis
  proof (cases best)
    case None
    with Inr h ps vn an show ?thesis
      by (simp add: consider_attr_def consider_attr_h_def best_at_def)
  next
    case (Some t)
    obtain b0 e0 P0 where t: "t = (b0, e0, P0)" by (cases t)
    show ?thesis
    proof (cases "attr_entropy_of fl iter_o ps < e0")
      case True
      with Inr h ps vn an Some t show ?thesis
        by (simp add: consider_attr_def consider_attr_h_def best_at_def)
    next
      case False
      have "best_at s1 best = best_at s best" by (rule b(1))
      with False Inr h ps b(2) Some t show ?thesis
        by (simp add: consider_attr_def consider_attr_h_def best_at_def)
    qed
  qed
qed

lemma find_best_attr_h_refines:
  "valid_list s ex \<Longrightarrow> valid_best s best
     \<Longrightarrow> (case find_best_attr fl iter_v iter_o (exemplars_at s ex) attrs (best_at s best) of
           Inl e \<Rightarrow> fst (find_best_attr_h fl iter_v iter_o ex attrs best s) = Inl e
         | Inr pb \<Rightarrow>
             (\<exists>b' s'. find_best_attr_h fl iter_v iter_o ex attrs best s = (Inr b', s')
                  \<and> best_at s' b' = pb \<and> valid_best s' b'))"
proof (induction attrs arbitrary: best s)
  case Nil
  then show ?case by simp
next
  case (Cons attr attrs)
  show ?case
  proof (cases "consider_attr fl iter_v iter_o (exemplars_at s ex) attr (best_at s best)")
    case (Inl e)
    with consider_attr_h_refines [OF Cons.prems, of fl iter_v iter_o attr]
    have "fst (consider_attr_h fl iter_v iter_o ex attr best s) = Inl e" by simp
    then obtain s1 where "consider_attr_h fl iter_v iter_o ex attr best s = (Inl e, s1)"
      by (cases "consider_attr_h fl iter_v iter_o ex attr best s") simp
    with Inl show ?thesis by simp
  next
    case (Inr pb)
    with consider_attr_h_refines [OF Cons.prems, of fl iter_v iter_o attr] obtain b1 s1 where
      h: "consider_attr_h fl iter_v iter_o ex attr best s = (Inr b1, s1)" and
      b1: "best_at s1 b1 = pb" and v1: "valid_best s1 b1"
      by auto
    from h have e: "extends s s1" by (rule consider_attr_h_extends)
    note x = extends_valid_list [OF e Cons.prems(1)]
    have step: "find_best_attr_h fl iter_v iter_o ex (attr # attrs) best s
              = find_best_attr_h fl iter_v iter_o ex attrs b1 s1"
      using h by simp
    have pstep: "find_best_attr fl iter_v iter_o (exemplars_at s ex) (attr # attrs) (best_at s best)
               = find_best_attr fl iter_v iter_o (exemplars_at s ex) attrs (best_at s1 b1)"
      using Inr b1 by simp
    from Cons.IH [OF x(1) v1] show ?thesis
      unfolding step pstep x(3) .
  qed
qed

lemma subnodes_h_refines:
  assumes F: "\<And>l s. valid_list s l \<Longrightarrow> arity (exemplars_at s l) < n
                \<Longrightarrow> \<exists>s'. f l s = Some (g (exemplars_at s l), s')"
    and E: "\<And>l s r s'. f l s = Some (r, s') \<Longrightarrow> extends s s'"
  shows "\<forall>l \<in> snd ` set P. valid_list s l \<and> arity (exemplars_at s l) < n
     \<Longrightarrow> \<exists>s'. subnodes_h f P s
            = Some (collect (map (\<lambda>(attr_value, part).
                                    case g part of
                                      Inl e \<Rightarrow> Inl e
                                    | Inr subnode \<Rightarrow> Inr (attr_value, subnode))
                                 (partitions_at s P)), s')"
proof (induction P arbitrary: s)
  case Nil
  then show ?case by (simp add: partitions_at_def)
next
  case (Cons p P)
  obtain v l where p: "p = (v, l)" by (cases p)
  from Cons.prems have vl: "valid_list s l" "arity (exemplars_at s l) < n" by (simp_all add: p)
  from F [OF vl] obtain s1 where c: "f l s = Some (g (exemplars_at s l), s1)" by blast
  from E [OF c] have e: "extends s s1" .
  have rest: "\<forall>l \<in> snd ` set P. valid_list s1 l \<and> arity (exemplars_at s1 l) < n"
  proof
    fix l' assume "l' \<in> snd ` set P"
    with Cons.prems have "valid_list s l'" "arity (exemplars_at s l') < n" by auto
    with extends_valid_list(1,3) [OF e] show "valid_list s1 l' \<and> arity (exemplars_at s1 l') < n"
      by simp
  qed
  from Cons.prems have "\<forall>l \<in> snd ` set P. valid_list s l" by auto
  from extends_partitions_at(1) [OF e this] have pa: "partitions_at s1 P = partitions_at s P" .
  from Cons.IH [OF rest] obtain s2 where
    r: "subnodes_h f P s1
          = Some (collect (map (\<lambda>(attr_value, part).
                                    case g part of
                                      Inl e \<Rightarrow> Inl e
                                    | Inr subnode \<Rightarrow> Inr (attr_value, subnode))
                                 (partitions_at s P)), s2)"
    unfolding pa by blast
  have pc: "partitions_at s (p # P) = (v, exemplars_at s l) # partitions_at s P"
    by (simp add: partitions_at_def p)
  show ?case
    unfolding pc
    by (cases "g (exemplars_at s l)") (auto simp: p c r split: sum.splits)
qed

text \<open>
  With a bound above the largest number of attributes of an exemplar, \<open>id3_helper_h\<close>
  returns what \<open>id3_helper\<close> returns for the exemplars that the list object holds.
\<close>

lemma id3_helper_h_refines:
  "valid_list (s :: ('k, 'v, 'o) store) ex \<Longrightarrow> arity (exemplars_at s ex) < n
     \<Longrightarrow> \<exists>s'. id3_helper_h n fl iter_v iter_o ex s
            = Some (id3_helper fl iter_v iter_o (exemplars_at s ex), s')"
proof (induction n arbitrary: ex s)
  case 0
  then show ?case by simp
next
  case (Suc n)
  let ?ex = "exemplars_at s ex"
  show ?case
  proof (cases "card (set (map snd ?ex)) = 0 \<or> card (set (map snd ?ex)) = 1 \<or> inputs_all_same ?ex")
    case True
    then show ?thesis by (subst id3_helper.simps) (auto simp: Let_def)
  next
    case False
    then have c0: "card (set (map snd ?ex)) \<noteq> 0" and c1: "card (set (map snd ?ex)) \<noteq> 1"
      and ns: "\<not> inputs_all_same ?ex"
      by simp_all
    from c0 have ne: "?ex \<noteq> []" by auto
    have pure: "id3_helper fl iter_v iter_o ?ex =
        (case find_best_attr fl iter_v iter_o ?ex (keys (fst (hd ?ex))) None of
           Inl e \<Rightarrow> Inl e
         | Inr None \<Rightarrow> Inl TypeError
         | Inr (Some (attr, entropy, partitions)) \<Rightarrow>
             (case collect
                     (map (\<lambda>(attr_value, partition).
                             case id3_helper fl iter_v iter_o partition of
                               Inl e \<Rightarrow> Inl e
                             | Inr subnode \<Rightarrow> Inr (attr_value, subnode))
                          partitions) of
                Inl e \<Rightarrow> Inl e
              | Inr value_subnode_pairs \<Rightarrow> Inr (ID3DecisionTreeNode attr value_subnode_pairs)))"
      using c0 c1 ns by (subst id3_helper.simps) (simp add: Let_def)
    have heap: "id3_helper_h (Suc n) fl iter_v iter_o ex s =
        (case find_best_attr_h fl iter_v iter_o ex (keys (fst (hd ?ex))) None s of
           (Inl e, s1) \<Rightarrow> Some (Inl e, s1)
         | (Inr None, s1) \<Rightarrow> Some (Inl TypeError, s1)
         | (Inr (Some (attr, entropy, partitions)), s1) \<Rightarrow>
             (case subnodes_h (id3_helper_h n fl iter_v iter_o) partitions s1 of
                None \<Rightarrow> None
              | Some (Inl e, s2) \<Rightarrow> Some (Inl e, s2)
              | Some (Inr value_subnode_pairs, s2) \<Rightarrow>
                  Some (Inr (ID3DecisionTreeNode attr value_subnode_pairs), s2)))"
      using c0 c1 ns by (simp add: Let_def)
    note fr = find_best_attr_h_refines
      [OF Suc.prems(1) valid_best_None, of fl iter_v iter_o "keys (fst (hd ?ex))",
       unfolded best_at_None]
    show ?thesis
    proof (cases "find_best_attr fl iter_v iter_o ?ex (keys (fst (hd ?ex))) None")
      case (Inl e)
      with fr have "fst (find_best_attr_h fl iter_v iter_o ex (keys (fst (hd ?ex))) None s) = Inl e"
        by simp
      then obtain s1 where "find_best_attr_h fl iter_v iter_o ex (keys (fst (hd ?ex))) None s = (Inl e, s1)"
        by (cases "find_best_attr_h fl iter_v iter_o ex (keys (fst (hd ?ex))) None s") simp
      with Inl show ?thesis unfolding pure heap by simp
    next
      case (Inr pb)
      with fr obtain b1 s1 where
        h: "find_best_attr_h fl iter_v iter_o ex (keys (fst (hd ?ex))) None s = (Inr b1, s1)"
        and b1: "best_at s1 b1 = pb" and v1: "valid_best s1 b1"
        by auto
      show ?thesis
      proof (cases b1)
        case None
        with b1 have "pb = None" by (simp add: best_at_def)
        with Inr h None show ?thesis unfolding pure heap by simp
      next
        case (Some t)
        obtain a e P where t: "t = (a, e, P)" by (cases t)
        from b1 Some t have pb: "pb = Some (a, e, partitions_at s1 P)" by (simp add: best_at_def)
        from v1 Some t have vP: "\<forall>l \<in> snd ` set P. valid_list s1 l" by (simp add: valid_best_def)
        from Inr pb have
          f: "find_best_attr fl iter_v iter_o ?ex (keys (fst (hd ?ex))) None
                = Inr (Some (a, e, partitions_at s1 P))"
          by simp
        from find_best_attr_origin [OF f] have
          attr: "a \<in> set (keys (fst (hd ?ex)))" and
          mk: "make_partitions iter_v a ?ex = Inr (partitions_at s1 P)"
          by auto
        have small: "\<forall>l \<in> snd ` set P. valid_list s1 l \<and> arity (exemplars_at s1 l) < n"
        proof
          fix l assume l: "l \<in> snd ` set P"
          then obtain v where "(v, l) \<in> set P" by auto
          then have "(v, exemplars_at s1 l) \<in> set (partitions_at s1 P)"
            by (force simp: partitions_at_def)
          from arity_partition [OF mk this ne attr] Suc.prems(2)
          have "arity (exemplars_at s1 l) < n" by simp
          with vP l show "valid_list s1 l \<and> arity (exemplars_at s1 l) < n" by blast
        qed
        have F: "\<And>l (s0 :: ('k, 'v, 'o) store). valid_list s0 l \<Longrightarrow> arity (exemplars_at s0 l) < n
            \<Longrightarrow> \<exists>s'. id3_helper_h n fl iter_v iter_o l s0
                  = Some (id3_helper fl iter_v iter_o (exemplars_at s0 l), s')"
          by (rule Suc.IH)
        have E: "\<And>l (s0 :: ('k, 'v, 'o) store) r s'.
            id3_helper_h n fl iter_v iter_o l s0 = Some (r, s') \<Longrightarrow> extends s0 s'"
          by (rule id3_helper_h_extends)
        have "\<exists>s'. subnodes_h (id3_helper_h n fl iter_v iter_o) P s1
            = Some (collect (map (\<lambda>(attr_value, part).
                                    case id3_helper fl iter_v iter_o part of
                                      Inl e \<Rightarrow> Inl e
                                    | Inr subnode \<Rightarrow> Inr (attr_value, subnode))
                                 (partitions_at s1 P)), s')"
          using F E small by (rule subnodes_h_refines)
        then obtain s2 where
          sn: "subnodes_h (id3_helper_h n fl iter_v iter_o) P s1
            = Some (collect (map (\<lambda>(attr_value, part).
                                    case id3_helper fl iter_v iter_o part of
                                      Inl e \<Rightarrow> Inl e
                                    | Inr subnode \<Rightarrow> Inr (attr_value, subnode))
                                 (partitions_at s1 P)), s2)"
          by blast
        show ?thesis
          unfolding pure heap
          by (simp add: f h Some t sn split: sum.splits)
      qed
    qed
  qed
qed

text \<open>A run on two exemplars with one attribute: the two dicts of the caller stay, two copies lose the attribute.\<close>

lemma id3_h_example:
  "id3_h 2 exact_arith remdups remdups 0
            \<lparr>dict_objs = [[(''a'', 1::nat)], [(''a'', 2)]],
             list_objs = [[(0, PyVal (0::nat)), (1, PyVal 5)]]\<rparr>
   = Some (Inr (ID3DecisionTree (ID3DecisionTreeNode ''a''
                         [(1, Leaf (PyVal 0)), (2, Leaf (PyVal 5))])),
           \<lparr>dict_objs = [[(''a'', 1)], [(''a'', 2)], [], []],
             list_objs = [[(0, PyVal 0), (1, PyVal 5)], [(2, PyVal 0)], [(3, PyVal 5)]]\<rparr>)"
  by (simp add: id3_h_def numeral_2_eq_2 exemplars_at_def inputs_all_same_def dict_eq_def keys_def
      consider_attr_h_def make_partitions_h_def attr_values_of_def getitem_def new_list_def
      new_dict_def set_dict_def list_append_def pop_def partitions_at_def attr_entropy_of_def
      group_entropy_def entropy_term_def Let_def AList.delete_eq)

section \<open>Claims\<close>

text \<open>
  C10. For every tree, the empty one built from no exemplars included, \<open>validate\<close> on an
  empty collection of exemplars returns \<open>True\<close>: there is nothing to replay.
\<close>

theorem validate_empty_exemplars: "validate t [] = Inr True"
  by simp

text \<open>
  C8. A call of the tree raises a \<open>KeyError\<close>, which reaches the caller, exactly when the
  assignment lacks the attribute name of a node that the traversal visits; no other
  exception is raised, and when every visited name is a key of the assignment the call
  returns a value.
\<close>

theorem call_raises_iff_visited_key_missing:
  "(call t inputs = Inl KeyError)
      = (\<exists>a \<in> set (visited (root_node t) inputs). a \<notin> set (keys inputs))
   \<and> ((\<exists>e. call t inputs = Inl e)
      = (\<exists>a \<in> set (visited (root_node t) inputs). a \<notin> set (keys inputs)))
   \<and> ((\<forall>a \<in> set (visited (root_node t) inputs). a \<in> set (keys inputs))
      \<longrightarrow> (\<exists>r. call t inputs = Inr r))"
proof -
  have "\<not> (\<exists>e. call t inputs = Inl e) \<Longrightarrow> \<exists>r. call t inputs = Inr r"
    by (cases "call t inputs") auto
  then show ?thesis unfolding call_def by (auto simp: traverse_error)
qed

theorem call_raises_iff_visited_key_missing_witness:
  "call (ID3DecisionTree (ID3DecisionTreeNode (1::nat)
           [(0::nat, Leaf (PyVal True)), (1, ID3DecisionTreeNode 2 [(0, Leaf (PyVal False))])])) [(1, 1)]
     = Inl KeyError
   \<and> call (ID3DecisionTree (ID3DecisionTreeNode (1::nat)
           [(0::nat, Leaf (PyVal True)), (1, ID3DecisionTreeNode 2 [(0, Leaf (PyVal False))])])) [(1, 0)]
     = Inr (PyVal True)"
  using call_raises_iff_visited_key_missing [of "ID3DecisionTree (ID3DecisionTreeNode (1::nat)
           [(0::nat, Leaf (PyVal True)), (1, ID3DecisionTreeNode 2 [(0, Leaf (PyVal False))])])" "[(1, 1)]"]
    call_raises_iff_visited_key_missing [of "ID3DecisionTree (ID3DecisionTreeNode (1::nat)
           [(0::nat, Leaf (PyVal True)), (1, ID3DecisionTreeNode 2 [(0, Leaf (PyVal False))])])" "[(1, 0)]"]
  by (simp add: getitem_def keys_def call_def)

text \<open>
  C4. When a call of \<open>id3_helper\<close> gets a non-empty partition whose input assignments are
  all equal (Python's \<open>==\<close> on dicts) and whose outputs are not all the same, it returns
  as a terminal an output that occurs in the partition and whose number of occurrences
  among the outputs is maximal. This holds for every iteration order of \<open>set(outputs)\<close>.
\<close>

theorem exhausted_attributes_majority_vote:
  assumes "set_order iter_o"
    and "exemplars \<noteq> []"
    and "\<forall>x \<in> set exemplars. \<forall>y \<in> set exemplars. dict_eq (fst x) (fst y)"
    and "1 < card (set (map snd exemplars))"
  shows "\<exists>m. id3_helper fl iter_v iter_o exemplars = Inr (Leaf m)
           \<and> m \<in> set (map snd exemplars)
           \<and> (\<forall>x. count_list (map snd exemplars) x \<le> count_list (map snd exemplars) m)"
proof -
  from assms(3) have same: "inputs_all_same exemplars"
    by (force simp: inputs_all_same_def list_all_iff)
  from assms(4) have c: "card (set (map snd exemplars)) \<noteq> 0" "card (set (map snd exemplars)) \<noteq> 1"
    by auto
  from c same have
    "id3_helper fl iter_v iter_o exemplars = Inr (Leaf (most_common_output iter_o (map snd exemplars)))"
    by (subst id3_helper.simps) (simp add: Let_def)
  moreover from assms(2) have "map snd exemplars \<noteq> []" by simp
  ultimately show ?thesis using most_common_output_max [OF assms(1)] by blast
qed

theorem exhausted_attributes_majority_vote_witness:
  "\<exists>m. id3_helper exact_arith remdups remdups
          [([(''a'', 1::nat)], PyVal ''Y''), ([(''a'', 1)], PyVal ''N''), ([(''a'', 1)], PyVal ''Y'')]
        = Inr (Leaf m)
     \<and> m \<in> set (map snd [([(''a'', 1::nat)], PyVal ''Y''), ([(''a'', 1)], PyVal ''N''),
                           ([(''a'', 1)], PyVal ''Y'')])
     \<and> (\<forall>x. count_list (map snd [([(''a'', 1::nat)], PyVal ''Y''), ([(''a'', 1)], PyVal ''N''),
                                   ([(''a'', 1)], PyVal ''Y'')]) x
              \<le> count_list (map snd [([(''a'', 1::nat)], PyVal ''Y''), ([(''a'', 1)], PyVal ''N''),
                                      ([(''a'', 1)], PyVal ''Y'')]) m)"
  by (rule exhausted_attributes_majority_vote) (simp_all add: set_order_def dict_eq_def card_insert_if)

text \<open>
  C2. In a call of \<open>id3_helper\<close> that reaches the attribute selection (the outputs are not
  all the same and the inputs are not all equal) and whose loop selects \<open>a\<close> with the
  score \<open>e\<close>: the keys of the first exemplar's assignment are \<open>pre @ a # post\<close>, every
  attribute before \<open>a\<close> has a strictly larger score and every attribute after it a score
  at least as large. So \<open>a\<close> has the smallest score, and among attributes of equal
  minimal score it is the first in the iteration order. The node that the call returns,
  if it returns one, carries the name \<open>a\<close>. The scores are the floats that lines 198-204
  compute, with the float operations \<open>fl\<close>, whichever they are: two attributes tie when
  their computed scores are equal.
\<close>

theorem best_attr_strictly_smallest_first_on_ties:
  assumes "card (set (map snd exemplars)) \<noteq> 0"
    and "card (set (map snd exemplars)) \<noteq> 1"
    and "\<not> inputs_all_same exemplars"
    and "find_best_attr fl iter_v iter_o exemplars (keys (fst (hd exemplars))) None = Inr (Some (a, e, ps))"
  shows "(\<exists>pre post. keys (fst (hd exemplars)) = pre @ a # post
            \<and> (\<forall>x \<in> set pre. \<exists>s. attr_score fl iter_v iter_o exemplars x = Some s \<and> e < s)
            \<and> (\<forall>x \<in> set post. \<exists>s. attr_score fl iter_v iter_o exemplars x = Some s \<and> e \<le> s))
       \<and> attr_score fl iter_v iter_o exemplars a = Some e
       \<and> (\<forall>b pairs. id3_helper fl iter_v iter_o exemplars = Inr (ID3DecisionTreeNode b pairs) \<longrightarrow> b = a)
       \<and> (\<forall>x. id3_helper fl iter_v iter_o exemplars \<noteq> Inr (Leaf x))"
proof -
  from find_best_attr_first_min [OF assms(4)] obtain pre post where
    all: "\<forall>x \<in> set (keys (fst (hd exemplars))). \<exists>s. attr_score fl iter_v iter_o exemplars x = Some s \<and> e \<le> s"
    and k: "keys (fst (hd exemplars)) = pre @ a # post"
    and mk: "make_partitions iter_v a exemplars = Inr ps" and e: "e = attr_entropy_of fl iter_o ps"
    and pre: "\<forall>x \<in> set pre. \<exists>s. attr_score fl iter_v iter_o exemplars x = Some s \<and> e < s"
    by auto
  from all k have post: "\<forall>x \<in> set post. \<exists>s. attr_score fl iter_v iter_o exemplars x = Some s \<and> e \<le> s"
    by simp
  from mk e have sc: "attr_score fl iter_v iter_o exemplars a = Some e" by (simp add: attr_score_def)
  have h: "id3_helper fl iter_v iter_o exemplars =
        (case collect
                (map (\<lambda>(attr_value, partition).
                        case id3_helper fl iter_v iter_o partition of
                          Inl e \<Rightarrow> Inl e
                        | Inr subnode \<Rightarrow> Inr (attr_value, subnode))
                     ps) of
           Inl e \<Rightarrow> Inl e
         | Inr value_subnode_pairs \<Rightarrow> Inr (ID3DecisionTreeNode a value_subnode_pairs))"
    using assms by (subst id3_helper.simps) (simp add: Let_def)
  have n: "\<forall>b pairs. id3_helper fl iter_v iter_o exemplars = Inr (ID3DecisionTreeNode b pairs) \<longrightarrow> b = a"
    unfolding h by (auto split: sum.splits)
  have l: "\<forall>x. id3_helper fl iter_v iter_o exemplars \<noteq> Inr (Leaf x)"
    unfolding h by (auto split: sum.splits)
  from k pre post sc n l show ?thesis by blast
qed

lemma log2_half: "log 2 (1 / 2) = -1"
  by (simp add: log_recip)

theorem best_attr_strictly_smallest_first_on_ties_witness:
  "(\<exists>pre post. keys (fst (hd [([(''x1'', 0::nat), (''x2'', 0)], PyVal (0::nat)),
                                 ([(''x1'', 0), (''x2'', 1)], PyVal 1)])) = pre @ ''x2'' # post
       \<and> (\<forall>x \<in> set pre. \<exists>s. attr_score exact_arith remdups remdups
              [([(''x1'', 0::nat), (''x2'', 0)], PyVal (0::nat)), ([(''x1'', 0), (''x2'', 1)], PyVal 1)] x
              = Some s \<and> 0 < s)
       \<and> (\<forall>x \<in> set post. \<exists>s. attr_score exact_arith remdups remdups
              [([(''x1'', 0::nat), (''x2'', 0)], PyVal (0::nat)), ([(''x1'', 0), (''x2'', 1)], PyVal 1)] x
              = Some s \<and> 0 \<le> s))
   \<and> attr_score exact_arith remdups remdups
        [([(''x1'', 0::nat), (''x2'', 0)], PyVal (0::nat)), ([(''x1'', 0), (''x2'', 1)], PyVal 1)] ''x2''
        = Some 0
   \<and> (\<forall>x. id3_helper exact_arith remdups remdups
        [([(''x1'', 0::nat), (''x2'', 0)], PyVal (0::nat)), ([(''x1'', 0), (''x2'', 1)], PyVal 1)]
        \<noteq> Inr (Leaf x))"
proof -
  have "(\<exists>pre post. keys (fst (hd [([(''x1'', 0::nat), (''x2'', 0)], PyVal (0::nat)),
                                 ([(''x1'', 0), (''x2'', 1)], PyVal 1)])) = pre @ ''x2'' # post
       \<and> (\<forall>x \<in> set pre. \<exists>s. attr_score exact_arith remdups remdups
              [([(''x1'', 0::nat), (''x2'', 0)], PyVal (0::nat)), ([(''x1'', 0), (''x2'', 1)], PyVal 1)] x
              = Some s \<and> 0 < s)
       \<and> (\<forall>x \<in> set post. \<exists>s. attr_score exact_arith remdups remdups
              [([(''x1'', 0::nat), (''x2'', 0)], PyVal (0::nat)), ([(''x1'', 0), (''x2'', 1)], PyVal 1)] x
              = Some s \<and> 0 \<le> s))
   \<and> attr_score exact_arith remdups remdups
        [([(''x1'', 0::nat), (''x2'', 0)], PyVal (0::nat)), ([(''x1'', 0), (''x2'', 1)], PyVal 1)] ''x2''
        = Some 0
   \<and> (\<forall>b pairs. id3_helper exact_arith remdups remdups
        [([(''x1'', 0::nat), (''x2'', 0)], PyVal (0::nat)), ([(''x1'', 0), (''x2'', 1)], PyVal 1)]
        = Inr (ID3DecisionTreeNode b pairs) \<longrightarrow> b = ''x2'')
   \<and> (\<forall>x. id3_helper exact_arith remdups remdups
        [([(''x1'', 0::nat), (''x2'', 0)], PyVal (0::nat)), ([(''x1'', 0), (''x2'', 1)], PyVal 1)]
        \<noteq> Inr (Leaf x))"
    by (rule best_attr_strictly_smallest_first_on_ties
          [where ps = "[(0, [([(''x1'', 0)], PyVal 0)]), (Suc 0, [([(''x1'', 0)], PyVal (Suc 0))])]"])
       (simp_all add: inputs_all_same_def dict_eq_def keys_def consider_attr_def make_partitions_def
          attr_values_of_def getitem_def pop_def attr_entropy_of_def group_entropy_def
          entropy_term_def AList.delete_eq log2_half)
  then show ?thesis by blast
qed

text \<open>
  C3. For every candidate attribute that all exemplars of the partition have, the score
  which lines 198-204 compute is \<open>spec_score\<close> of \<open>score_terms\<close>: starting from 0, the
  amount \<open>count * log2(count / group_size)\<close> is subtracted once for each value-group of the
  attribute and each output value occurring in that group, with Python's float
  operations and in the order in which the loops meet the groups and the outputs. The
  score is a sum of floats: each operation rounds, so the statement is about the
  operations \<open>fl\<close>, whichever they are. With float operations that satisfy
  \<open>float_laws\<close> the score is not negative, and a group with a single output value leaves
  the running score unchanged (it contributes 0). In the arithmetic without rounding the
  score is \<open>exact_sum\<close>, the sum of the terms \<open>-count * log2(count / group_size)\<close> over the
  groups and their outputs, whatever the order of iteration.
\<close>

theorem attr_entropy_is_weighted_sum:
  assumes "set_order iter_v" and "set_order iter_o" and "has_attr attr exemplars"
    and "float_laws fl"
  shows "attr_score fl iter_v iter_o exemplars attr
           = Some (spec_score fl (score_terms iter_v iter_o attr exemplars))
       \<and> fl_zero fl \<le> spec_score fl (score_terms iter_v iter_o attr exemplars)
       \<and> (\<forall>outputs outp acc. set outputs = {outp} \<longrightarrow> group_entropy fl iter_o outputs acc = acc)
       \<and> attr_score exact_arith iter_v iter_o exemplars attr = Some (exact_sum attr exemplars)"
proof -
  have p1: "attr_score fl iter_v iter_o exemplars attr
           = Some (spec_score fl (score_terms iter_v iter_o attr exemplars))"
    using assms(1,3) by (rule attr_score_terms)
  have p2: "fl_zero fl \<le> spec_score fl (score_terms iter_v iter_o attr exemplars)"
    using assms(4,2) by (rule spec_score_nonneg)
  have p3: "\<forall>outputs outp acc. set outputs = {outp} \<longrightarrow> group_entropy fl iter_o outputs acc = acc"
    using group_entropy_pure [OF assms(4,2)] by blast
  have "attr_score exact_arith iter_v iter_o exemplars attr
           = Some (spec_score exact_arith (score_terms iter_v iter_o attr exemplars))"
    using assms(1,3) by (rule attr_score_terms)
  then have p4: "attr_score exact_arith iter_v iter_o exemplars attr = Some (exact_sum attr exemplars)"
    by (simp only: spec_score_exact [OF assms(1,2)])
  from p1 p2 p3 p4 show ?thesis by blast
qed

theorem attr_entropy_is_weighted_sum_witness:
  "attr_score exact_arith remdups remdups
      [([(''x1'', 0::nat), (''x2'', 0::nat)], PyVal (0::nat)), ([(''x1'', 0), (''x2'', 1)], PyVal 1)] ''x1''
     = Some (spec_score exact_arith (score_terms remdups remdups ''x1''
         [([(''x1'', 0::nat), (''x2'', 0::nat)], PyVal (0::nat)), ([(''x1'', 0), (''x2'', 1)], PyVal 1)]))
   \<and> score_terms remdups remdups ''x1''
         [([(''x1'', 0::nat), (''x2'', 0::nat)], PyVal (0::nat)), ([(''x1'', 0), (''x2'', 1)], PyVal 1)]
       = [(1, 2), (1, 2)]
   \<and> spec_score exact_arith [(1, 2), (1, 2)] = 2
   \<and> 0 \<le> spec_score exact_arith (score_terms remdups remdups ''x1''
         [([(''x1'', 0::nat), (''x2'', 0::nat)], PyVal (0::nat)), ([(''x1'', 0), (''x2'', 1)], PyVal 1)])
   \<and> group_entropy exact_arith remdups [PyVal (7::nat), PyVal 7, PyVal 7] 5 = 5
   \<and> attr_score exact_arith remdups remdups
      [([(''x1'', 0::nat), (''x2'', 0::nat)], PyVal (0::nat)), ([(''x1'', 0), (''x2'', 1)], PyVal 1)] ''x1''
     = Some (exact_sum ''x1''
         [([(''x1'', 0::nat), (''x2'', 0::nat)], PyVal (0::nat)), ([(''x1'', 0), (''x2'', 1)], PyVal 1)])"
proof -
  let ?ex = "[([(''x1'', 0::nat), (''x2'', 0::nat)], PyVal (0::nat)), ([(''x1'', 0), (''x2'', 1)], PyVal 1)]"
  have h: "has_attr ''x1'' ?ex" by (simp add: has_attr_def)
  note full = attr_entropy_is_weighted_sum
      [OF set_order_remdups set_order_remdups h float_laws_exact]
  have a: "attr_score exact_arith remdups remdups ?ex ''x1''
           = Some (spec_score exact_arith (score_terms remdups remdups ''x1'' ?ex))"
    by (rule full [THEN conjunct1])
  have "fl_zero exact_arith \<le> spec_score exact_arith (score_terms remdups remdups ''x1'' ?ex)"
    by (rule full [THEN conjunct2, THEN conjunct1])
  then have b: "0 \<le> spec_score exact_arith (score_terms remdups remdups ''x1'' ?ex)"
    by (simp only: exact_arith_simps)
  have s7: "set [PyVal (7::nat), PyVal 7, PyVal 7] = {PyVal 7}" by simp
  have c: "group_entropy exact_arith remdups [PyVal (7::nat), PyVal 7, PyVal 7] 5 = 5"
    by (rule full [THEN conjunct2, THEN conjunct2, THEN conjunct1, rule_format, OF s7])
  have d: "attr_score exact_arith remdups remdups ?ex ''x1'' = Some (exact_sum ''x1'' ?ex)"
    by (rule full [THEN conjunct2, THEN conjunct2, THEN conjunct2])
  have st: "score_terms remdups remdups ''x1'' ?ex = [(1, 2), (1, 2)]"
    by (simp add: score_terms_def attr_vals_def group_of_def)
  have sp: "spec_score exact_arith [(1, 2), (1, 2)] = 2"
    by (simp add: spec_score_def subtract_term_def log2_half)
  from a st sp b c d show ?thesis by (intro conjI)
qed

text \<open>
  C5. For exemplars whose assignments have the same attribute names, the construction
  returns a tree (\<open>id3_helper\<close> is a total function, its recursion is well-founded, and no
  exception is raised), and the nesting of the recursive calls, which is the depth of
  the tree they build, is at most the number of distinct attribute names. A call that
  does not return at a base case recurses on the partitions of the selected attribute
  \<open>a\<close>: in each of them every assignment has the attribute names of the call but
  \<open>a\<close>, so each partition again has the same attribute names throughout.
\<close>

theorem construction_terminates_depth_bounded:
  assumes "set_order iter_v" and "dicts_wf exemplars" and "same_attribute_names exemplars"
  shows "(\<exists>t. id3 fl iter_v iter_o exemplars = Inr t
            \<and> depth (root_node t) \<le> card (\<Union>x \<in> set exemplars. set (keys (fst x))))
       \<and> (\<forall>a e ps. find_best_attr fl iter_v iter_o exemplars (keys (fst (hd exemplars))) None
                       = Inr (Some (a, e, ps))
             \<longrightarrow> (\<forall>p \<in> set ps. dicts_wf (snd p) \<and> same_attribute_names (snd p)
                    \<and> (\<forall>x \<in> set (snd p).
                          a \<in> (\<Union>x \<in> set exemplars. set (keys (fst x)))
                        \<and> set (keys (fst x)) = (\<Union>x \<in> set exemplars. set (keys (fst x))) - {a})))"
proof -
  let ?K = "set (keys (fst (hd exemplars)))"
  let ?U = "\<Union>x \<in> set exemplars. set (keys (fst x))"
  have wf: "wf_exemplars ?K exemplars" using assms(2,3) by (rule wf_exemplars_intro)
  obtain t where t: "id3_helper fl iter_v iter_o exemplars = Inr t"
    using id3_helper_succeeds [OF assms(1) wf] by blast
  have b: "built iter_v iter_o exemplars t" using assms(1) t by (rule id3_helper_built)
  have d: "depth t \<le> card ?U"
  proof (cases "exemplars = []")
    case True
    with t have "t = Leaf PyNone" by (simp add: id3_helper_leaf_cases)
    then show ?thesis by simp
  next
    case False
    from built_depth [OF b wf] have "depth t \<le> card ?K" by simp
    with wf_names_union [OF wf False] show ?thesis by simp
  qed
  have p1: "\<exists>t. id3 fl iter_v iter_o exemplars = Inr t \<and> depth (root_node t) \<le> card ?U"
    using t d by (simp add: id3_def)
  have p2: "\<forall>p \<in> set ps. dicts_wf (snd p) \<and> same_attribute_names (snd p)
                    \<and> (\<forall>x \<in> set (snd p). a \<in> ?U \<and> set (keys (fst x)) = ?U - {a})"
    if f: "find_best_attr fl iter_v iter_o exemplars (keys (fst (hd exemplars))) None = Inr (Some (a, e, ps))"
    for a e ps
  proof
    fix p assume p: "p \<in> set ps"
    from find_best_attr_origin [OF f] have a: "a \<in> ?K" and mk: "make_partitions iter_v a exemplars = Inr ps"
      by auto
    from mk have ps: "ps = map (\<lambda>v. (v, group_of a v exemplars)) (iter_v (attr_vals a exemplars))"
      by (simp add: make_partitions_eq [OF assms(1)] split: if_splits)
    with p have sp: "snd p = group_of a (fst p) exemplars" by auto
    have wg: "wf_exemplars (?K - {a}) (snd p)" unfolding sp using wf by (rule wf_group)
    show "dicts_wf (snd p) \<and> same_attribute_names (snd p)
            \<and> (\<forall>x \<in> set (snd p). a \<in> ?U \<and> set (keys (fst x)) = ?U - {a})"
    proof (cases "exemplars = []")
      case True
      then have "snd p = []" by (simp add: sp group_of_def)
      then show ?thesis by (simp add: dicts_wf_def same_attribute_names_def)
    next
      case False
      from wf_names_union [OF wf False] have U: "?U = ?K" .
      from wg have "\<forall>x \<in> set (snd p). set (keys (fst x)) = ?K - {a}" by (simp add: wf_exemplars_def)
      with wf_exemplars_dest [OF wg] a show ?thesis unfolding U by blast
    qed
  qed
  from p1 p2 show ?thesis by blast
qed

theorem construction_terminates_depth_bounded_witness:
  "\<exists>t. id3 exact_arith remdups remdups
          [([(''x1'', 0::nat), (''x2'', 0::nat)], PyVal (0::nat)), ([(''x1'', 0), (''x2'', 1)], PyVal 1),
           ([(''x1'', 1), (''x2'', 0)], PyVal 1), ([(''x1'', 1), (''x2'', 1)], PyVal 1)] = Inr t
     \<and> depth (root_node t) \<le> card (\<Union>x \<in> set
          [([(''x1'', 0::nat), (''x2'', 0::nat)], PyVal (0::nat)), ([(''x1'', 0), (''x2'', 1)], PyVal 1),
           ([(''x1'', 1), (''x2'', 0)], PyVal 1), ([(''x1'', 1), (''x2'', 1)], PyVal 1)].
             set (keys (fst x)))"
proof -
  have "set_order (remdups :: nat list \<Rightarrow> nat list)" by (rule set_order_remdups)
  moreover have "dicts_wf
          [([(''x1'', 0::nat), (''x2'', 0::nat)], PyVal (0::nat)), ([(''x1'', 0), (''x2'', 1)], PyVal 1),
           ([(''x1'', 1), (''x2'', 0)], PyVal 1), ([(''x1'', 1), (''x2'', 1)], PyVal 1)]"
    by (simp add: dicts_wf_def keys_def)
  moreover have "same_attribute_names
          [([(''x1'', 0::nat), (''x2'', 0::nat)], PyVal (0::nat)), ([(''x1'', 0), (''x2'', 1)], PyVal 1),
           ([(''x1'', 1), (''x2'', 0)], PyVal 1), ([(''x1'', 1), (''x2'', 1)], PyVal 1)]"
    by (simp add: same_attribute_names_def keys_def)
  ultimately show ?thesis
    using construction_terminates_depth_bounded [of remdups _ exact_arith remdups] by blast
qed

text \<open>
  C1. For exemplars whose assignments have the same attribute names and in which equal
  assignments have the same output (no conflicting duplicates), \<open>id3\<close> returns a tree, and
  \<open>validate\<close> on that tree with the same exemplars returns \<open>True\<close>. This holds for every
  iteration order of the sets, and whichever attribute a tie selects.
\<close>

theorem consistent_exemplars_validate:
  assumes "set_order iter_v" and "dicts_wf exemplars" and "same_attribute_names exemplars"
    and "consistent exemplars"
  shows "\<exists>t. id3 fl iter_v iter_o exemplars = Inr t \<and> validate t exemplars = Inr True"
proof -
  let ?K = "set (keys (fst (hd exemplars)))"
  have wf: "wf_exemplars ?K exemplars" using assms(2,3) by (rule wf_exemplars_intro)
  obtain t where t: "id3_helper fl iter_v iter_o exemplars = Inr t"
    using id3_helper_succeeds [OF assms(1) wf] by blast
  have b: "built iter_v iter_o exemplars t" using assms(1) t by (rule id3_helper_built)
  have "\<forall>x \<in> set exemplars. call (ID3DecisionTree t) (fst x) = Inr (snd x)"
  proof
    fix x assume "x \<in> set exemplars"
    with built_traverse [OF assms(1) b wf assms(4)] show "call (ID3DecisionTree t) (fst x) = Inr (snd x)"
      by (simp add: call_def)
  qed
  then have "validate (ID3DecisionTree t) exemplars = Inr True" by (rule validate_all)
  with t show ?thesis by (simp add: id3_def)
qed

theorem consistent_exemplars_validate_witness:
  "\<exists>t. id3 exact_arith remdups remdups
          [([(''x1'', 0::nat), (''x2'', 0::nat)], PyVal (0::nat)), ([(''x1'', 0), (''x2'', 1)], PyVal 1),
           ([(''x1'', 1), (''x2'', 0)], PyVal 1), ([(''x1'', 1), (''x2'', 1)], PyVal 1)] = Inr t
     \<and> validate t
          [([(''x1'', 0::nat), (''x2'', 0::nat)], PyVal (0::nat)), ([(''x1'', 0), (''x2'', 1)], PyVal 1),
           ([(''x1'', 1), (''x2'', 0)], PyVal 1), ([(''x1'', 1), (''x2'', 1)], PyVal 1)] = Inr True"
proof -
  have "set_order (remdups :: nat list \<Rightarrow> nat list)" by (rule set_order_remdups)
  moreover have "dicts_wf
          [([(''x1'', 0::nat), (''x2'', 0::nat)], PyVal (0::nat)), ([(''x1'', 0), (''x2'', 1)], PyVal 1),
           ([(''x1'', 1), (''x2'', 0)], PyVal 1), ([(''x1'', 1), (''x2'', 1)], PyVal 1)]"
    by (simp add: dicts_wf_def keys_def)
  moreover have "same_attribute_names
          [([(''x1'', 0::nat), (''x2'', 0::nat)], PyVal (0::nat)), ([(''x1'', 0), (''x2'', 1)], PyVal 1),
           ([(''x1'', 1), (''x2'', 0)], PyVal 1), ([(''x1'', 1), (''x2'', 1)], PyVal 1)]"
    by (simp add: same_attribute_names_def keys_def)
  moreover have "consistent
          [([(''x1'', 0::nat), (''x2'', 0::nat)], PyVal (0::nat)), ([(''x1'', 0), (''x2'', 1)], PyVal 1),
           ([(''x1'', 1), (''x2'', 0)], PyVal 1), ([(''x1'', 1), (''x2'', 1)], PyVal 1)]"
    by (simp add: consistent_def dict_eq_def)
  ultimately show ?thesis
    by (rule consistent_exemplars_validate)
qed

text \<open>
Claim C7 (amended). Let the tree be built by \<^const>\<open>id3\<close> from the exemplars, and let
the query \<open>q\<close> supply every attribute name that the traversal visits, while no exemplar
agrees with \<open>q\<close> on all the visited attributes (so at the last visited node the value of
\<open>q\<close> never occurred in the exemplars that reached that node). Then the call raises
nothing and returns Python's \<open>None\<close>, the value of \<open>get_subnode_for_input\<close> when no pair
matches. \<open>None\<close> differs from the output of every exemplar only when no exemplar has the
output \<open>None\<close>: the code does not reserve it, and the second statement below shows a tree
built from exemplars in which the answer for an unseen value and the answer for a seen one
are the same \<open>None\<close>.
\<close>

theorem unseen_value_gives_none:
  assumes "set_order iter_v"
    and "id3 fl iter_v iter_o exemplars = Inr t"
    and "\<forall>a \<in> set (visited (root_node t) q). a \<in> set (keys q)"
    and "\<not> (\<exists>x \<in> set exemplars. \<forall>a \<in> set (visited (root_node t) q). map_of (fst x) a = map_of q a)"
  shows "call t q = Inr PyNone
       \<and> (PyNone \<notin> snd ` set exemplars \<longrightarrow> (\<forall>x \<in> set exemplars. call t q \<noteq> Inr (snd x)))"
proof -
  from assms(2) have h: "id3_helper fl iter_v iter_o exemplars = Inr (root_node t)"
    by (auto simp: id3_def split: sum.splits)
  have "built iter_v iter_o exemplars (root_node t)" using assms(1) h by (rule id3_helper_built)
  from built_unseen [OF this assms(3,4)] have "call t q = Inr PyNone" by (simp add: call_def)
  then show ?thesis by auto
qed

theorem unseen_value_gives_none_witness:
  "call (ID3DecisionTree (ID3DecisionTreeNode ''a''
          [(1::nat, Leaf (PyVal (0::nat))), (2, Leaf (PyVal 5))])) [(''a'', 3)] = Inr PyNone"
proof -
  have "id3 exact_arith remdups remdups [([(''a'', 1::nat)], PyVal (0::nat)), ([(''a'', 2)], PyVal 5)]
      = Inr (ID3DecisionTree (ID3DecisionTreeNode ''a'' [(1, Leaf (PyVal 0)), (2, Leaf (PyVal 5))]))"
    by (rule id3_one_attribute) simp_all
  from unseen_value_gives_none [OF set_order_remdups this, of "[(''a'', 3)]"]
  show ?thesis by (simp add: getitem_def keys_def)
qed

theorem none_sentinel_not_distinct_counterexample:
  "id3 exact_arith remdups remdups [([(''a'', 1::nat)], PyNone), ([(''a'', 2)], PyVal (5::nat))]
     = Inr (ID3DecisionTree (ID3DecisionTreeNode ''a'' [(1, Leaf PyNone), (2, Leaf (PyVal 5))]))
   \<and> call (ID3DecisionTree (ID3DecisionTreeNode ''a'' [(1::nat, Leaf PyNone), (2, Leaf (PyVal (5::nat)))]))
        [(''a'', 3)] = Inr PyNone
   \<and> call (ID3DecisionTree (ID3DecisionTreeNode ''a'' [(1::nat, Leaf PyNone), (2, Leaf (PyVal (5::nat)))]))
        [(''a'', 1)] = Inr PyNone
   \<and> snd (hd [([(''a'', 1::nat)], PyNone), ([(''a'', 2)], PyVal (5::nat))]) = PyNone"
proof -
  have "id3 exact_arith remdups remdups [([(''a'', 1::nat)], PyNone), ([(''a'', 2)], PyVal (5::nat))]
      = Inr (ID3DecisionTree (ID3DecisionTreeNode ''a'' [(1, Leaf PyNone), (2, Leaf (PyVal 5))]))"
    by (rule id3_one_attribute) simp_all
  then show ?thesis by (simp add: call_def getitem_def)
qed

text \<open>
Claim C6. Let the tree \<open>t\<close> be built by \<^const>\<open>id3\<close>, let \<open>d\<close> be one of the assignments
that \<open>get_inputs_for_output\<close> returns for \<open>output\<close>, and let \<open>b\<close> be any assignment that
has every entry of \<open>d\<close> and arbitrary values for the names that \<open>d\<close> omits. Then calling
the tree with \<open>b\<close> raises nothing and returns \<open>output\<close>.
\<close>

theorem invert_infer_consistent:
  assumes "set_order iter_v"
    and "id3 fl iter_v iter_o exemplars = Inr t"
    and "d \<in> set (get_inputs_for_output t output)"
    and "map_of d \<subseteq>\<^sub>m map_of b"
  shows "call t b = Inr output"
proof -
  from assms(2) have h: "id3_helper fl iter_v iter_o exemplars = Inr (root_node t)"
    by (auto simp: id3_def split: sum.splits)
  have "built iter_v iter_o exemplars (root_node t)" using assms(1) h by (rule id3_helper_built)
  from built_wf_tree [OF this assms(1)] have w: "wf_tree (root_node t)" by blast
  show ?thesis
  proof (cases "root_node t")
    case (Leaf x)
    with assms(3) show ?thesis by (simp add: get_inputs_for_output_def)
  next
    case (ID3DecisionTreeNode a pairs)
    with assms(3) have "d \<in> set (paths (root_node t) output [])"
      by (simp add: get_inputs_for_output_def get_inputs_paths)
    from paths_traverse [OF w this] assms(4) show ?thesis by (simp add: call_def)
  qed
qed

theorem invert_infer_consistent_witness:
  "get_inputs_for_output (ID3DecisionTree (ID3DecisionTreeNode ''a''
          [(1::nat, Leaf (PyVal (0::nat))), (2, Leaf (PyVal 5))])) (PyVal 5) = [[(''a'', 2)]]
   \<and> call (ID3DecisionTree (ID3DecisionTreeNode ''a''
          [(1::nat, Leaf (PyVal (0::nat))), (2, Leaf (PyVal 5))])) [(''z'', 9), (''a'', 2)]
       = Inr (PyVal 5)"
proof -
  let ?t = "ID3DecisionTree (ID3DecisionTreeNode ''a''
          [(1::nat, Leaf (PyVal (0::nat))), (2, Leaf (PyVal 5))])"
  have i: "id3 exact_arith remdups remdups [([(''a'', 1::nat)], PyVal (0::nat)), ([(''a'', 2)], PyVal 5)] = Inr ?t"
    by (rule id3_one_attribute) simp_all
  have g: "get_inputs_for_output ?t (PyVal 5) = [[(''a'', 2)]]"
    by (simp add: get_inputs_for_output_def get_inputs.simps setitem_def Let_def)
  have m: "map_of [(''a'', 2::nat)] \<subseteq>\<^sub>m map_of [(''z'', 9), (''a'', 2)]"
    by (simp add: map_le_def)
  have mem: "[(''a'', 2)] \<in> set (get_inputs_for_output ?t (PyVal 5))"
    unfolding g by simp
  have "call ?t [(''z'', 9), (''a'', 2)] = Inr (PyVal 5)"
    by (rule invert_infer_consistent [OF set_order_remdups i mem m])
  with g show ?thesis by simp
qed

text \<open>
  Claim C9. Let the list object \<open>ex\<close> of the store \<open>s\<close> hold the exemplars of the caller, each
  referring to a dict object of \<open>s\<close>. With a bound \<open>n\<close> on the depth of the recursion above
  the largest number of attributes of an exemplar, the construction on the store returns:
  its result is that of \<^const>\<open>id3\<close> for the exemplars that \<open>ex\<close> holds, and in the store
  \<open>s'\<close> that it leaves every object of \<open>s\<close> is at its address with its value. So the
  sequence \<open>ex\<close> has the same pairs as before the call, every assignment that a pair
  refers to has the same entries, and the exemplars read back from \<open>s'\<close> are those of
  \<open>s\<close>. The dicts that line 194 changes are the copies that line 193 makes, which are new
  objects of \<open>s'\<close>.
\<close>

theorem id3_never_mutates_exemplars:
  assumes "valid_list s ex" and "arity (exemplars_at s ex) < n"
  shows "\<exists>s'. id3_h n fl iter_v iter_o ex s = Some (id3 fl iter_v iter_o (exemplars_at s ex), s')
            \<and> extends s s'
            \<and> list_objs s' ! ex = list_objs s ! ex
            \<and> (\<forall>x \<in> set (list_objs s ! ex). dict_objs s' ! fst x = dict_objs s ! fst x)
            \<and> exemplars_at s' ex = exemplars_at s ex"
proof -
  from id3_helper_h_refines [OF assms] obtain s' where
    h: "id3_helper_h n fl iter_v iter_o ex s = Some (id3_helper fl iter_v iter_o (exemplars_at s ex), s')"
    by blast
  from h have e: "extends s s'" by (rule id3_helper_h_extends)
  have "id3_h n fl iter_v iter_o ex s = Some (id3 fl iter_v iter_o (exemplars_at s ex), s')"
    by (simp add: id3_h_def id3_def h split: sum.splits)
  with e extends_valid_list(2,3,4) [OF e assms(1)] show ?thesis by blast
qed

theorem id3_never_mutates_exemplars_witness:
  "id3_h 2 exact_arith remdups remdups 0
            \<lparr>dict_objs = [[(''a'', 1::nat)], [(''a'', 2)]],
             list_objs = [[(0, PyVal (0::nat)), (1, PyVal 5)]]\<rparr>
     = Some (Inr (ID3DecisionTree (ID3DecisionTreeNode ''a''
                         [(1, Leaf (PyVal 0)), (2, Leaf (PyVal 5))])),
             \<lparr>dict_objs = [[(''a'', 1)], [(''a'', 2)], [], []],
              list_objs = [[(0, PyVal 0), (1, PyVal 5)], [(2, PyVal 0)], [(3, PyVal 5)]]\<rparr>)
   \<and> exemplars_at \<lparr>dict_objs = [[(''a'', 1::nat)], [(''a'', 2)], [], []],
              list_objs = [[(0, PyVal (0::nat)), (1, PyVal 5)], [(2, PyVal 0)], [(3, PyVal 5)]]\<rparr> 0
     = exemplars_at \<lparr>dict_objs = [[(''a'', 1::nat)], [(''a'', 2)]],
             list_objs = [[(0, PyVal (0::nat)), (1, PyVal 5)]]\<rparr> 0"
proof -
  let ?s = "\<lparr>dict_objs = [[(''a'', 1::nat)], [(''a'', 2)]],
             list_objs = [[(0, PyVal (0::nat)), (1, PyVal 5)]]\<rparr>"
  let ?s' = "\<lparr>dict_objs = [[(''a'', 1::nat)], [(''a'', 2)], [], []],
              list_objs = [[(0, PyVal (0::nat)), (1, PyVal 5)], [(2, PyVal 0)], [(3, PyVal 5)]]\<rparr>"
  have x: "exemplars_at ?s 0 = [([(''a'', 1)], PyVal 0), ([(''a'', 2)], PyVal 5)]"
    by (simp add: exemplars_at_def)
  have v: "valid_list ?s 0" by (simp add: valid_list_def)
  have a: "arity (exemplars_at ?s 0) < 2" unfolding x by (simp add: arity_def)
  from id3_never_mutates_exemplars [OF v a, of exact_arith remdups remdups] obtain s' where
    r: "id3_h 2 exact_arith remdups remdups 0 ?s
       = Some (id3 exact_arith remdups remdups (exemplars_at ?s 0), s')"
    and e: "exemplars_at s' 0 = exemplars_at ?s 0"
    by blast
  have run: "id3_h 2 exact_arith remdups remdups 0 ?s
       = Some (Inr (ID3DecisionTree (ID3DecisionTreeNode ''a''
                         [(1, Leaf (PyVal 0)), (2, Leaf (PyVal 5))])), ?s')"
    by (rule id3_h_example)
  from r run have "s' = ?s'" by simp
  with e run show ?thesis by simp
qed

end
